theory Spec2Isabelle
  imports Main "HOL-Library.AList"
begin

section \<open>Python values, exceptions and the built-ins the manager uses\<close>

text \<open>
  The manager keeps \<^verbatim>\<open>self.users\<close>, whatever \<^verbatim>\<open>json.load\<close> returned: a Python
  value built from \<^verbatim>\<open>None\<close>, booleans, integers, strings, lists and dictionaries with
  string keys. A dictionary is an association list in insertion order, read with
  \<open>map_of\<close> and written with \<open>AList.update\<close> (an existing key keeps its place, a new
  key goes to the end, as in Python). JSON reals are outside the model.
\<close>

datatype pyval =
    PNone
  | PBool bool
  | PInt int
  | PStr string
  | PList "pyval list"
  | PDict "(string \<times> pyval) list"

datatype exn =
    FileNotFoundError
  | JSONDecodeError
  | OSError
  | TypeError
  | AttributeError
  | KeyError
  | IndexError

text \<open>\<^verbatim>\<open>len(v)\<close>: defined on lists, dictionaries and strings, \<^verbatim>\<open>TypeError\<close> otherwise.\<close>

fun py_len :: "pyval \<Rightarrow> exn + nat" where
  "py_len (PList xs) = Inr (length xs)"
| "py_len (PDict d) = Inr (length d)"
| "py_len (PStr s) = Inr (length s)"
| "py_len PNone = Inl TypeError"
| "py_len (PBool b) = Inl TypeError"
| "py_len (PInt n) = Inl TypeError"

text \<open>
  \<^verbatim>\<open>for x in v\<close>: a list yields its elements, a dictionary its keys, a string its
  characters (one-character strings); anything else is not iterable.
\<close>

fun py_iter :: "pyval \<Rightarrow> exn + pyval list" where
  "py_iter (PList xs) = Inr xs"
| "py_iter (PDict d) = Inr (map (\<lambda>kv. PStr (fst kv)) d)"
| "py_iter (PStr s) = Inr (map (\<lambda>c. PStr [c]) s)"
| "py_iter PNone = Inl TypeError"
| "py_iter (PBool b) = Inl TypeError"
| "py_iter (PInt n) = Inl TypeError"

text \<open>\<^verbatim>\<open>v.get(k, dflt)\<close>: only dictionaries have the method.\<close>

fun py_get :: "pyval \<Rightarrow> string \<Rightarrow> pyval \<Rightarrow> exn + pyval" where
  "py_get (PDict d) k dflt = Inr (case map_of d k of None \<Rightarrow> dflt | Some x \<Rightarrow> x)"
| "py_get PNone k dflt = Inl AttributeError"
| "py_get (PBool b) k dflt = Inl AttributeError"
| "py_get (PInt n) k dflt = Inl AttributeError"
| "py_get (PStr s) k dflt = Inl AttributeError"
| "py_get (PList xs) k dflt = Inl AttributeError"

text \<open>Truth value of a Python value, as \<^verbatim>\<open>if v\<close> tests it.\<close>

fun py_truthy :: "pyval \<Rightarrow> bool" where
  "py_truthy PNone = False"
| "py_truthy (PBool b) = b"
| "py_truthy (PInt n) = (n \<noteq> 0)"
| "py_truthy (PStr s) = (s \<noteq> [])"
| "py_truthy (PList xs) = (xs \<noteq> [])"
| "py_truthy (PDict d) = (d \<noteq> [])"

text \<open>The numeric value of a Python number; \<^verbatim>\<open>bool\<close> is a subtype of \<^verbatim>\<open>int\<close>.\<close>

fun py_num :: "pyval \<Rightarrow> int option" where
  "py_num (PInt n) = Some n"
| "py_num (PBool b) = Some (if b then 1 else 0)"
| "py_num PNone = None"
| "py_num (PStr s) = None"
| "py_num (PList xs) = None"
| "py_num (PDict d) = None"

text \<open>\<^verbatim>\<open>v == s\<close> for a string \<open>s\<close>, and \<^verbatim>\<open>v == n\<close> for an integer \<open>n\<close>.\<close>

fun py_eq_str :: "pyval \<Rightarrow> string \<Rightarrow> bool" where
  "py_eq_str (PStr t) s = (t = s)"
| "py_eq_str PNone s = False"
| "py_eq_str (PBool b) s = False"
| "py_eq_str (PInt n) s = False"
| "py_eq_str (PList xs) s = False"
| "py_eq_str (PDict d) s = False"

definition py_eq_int :: "pyval \<Rightarrow> int \<Rightarrow> bool" where
  "py_eq_int v n = (py_num v = Some n)"

text \<open>
  \<^verbatim>\<open>max(vs, default=0) + 1\<close>. \<^verbatim>\<open>max\<close> compares each item with the running maximum,
  and a number compared with a non-number raises \<^verbatim>\<open>TypeError\<close>; a maximum that is not
  a number raises \<^verbatim>\<open>TypeError\<close> at \<^verbatim>\<open>+ 1\<close>. So the expression has a value exactly when
  every item is a number, and \<^verbatim>\<open>default\<close> is used only for the empty list.
\<close>

definition py_max_default0_plus_1 :: "pyval list \<Rightarrow> exn + int" where
  "py_max_default0_plus_1 vs =
     (case those (map py_num vs) of
        None \<Rightarrow> Inl TypeError
      | Some [] \<Rightarrow> Inr (0 + 1)
      | Some (n # ns) \<Rightarrow> Inr (fold max ns n + 1))"

text \<open>\<^verbatim>\<open>v.append(x)\<close>: a method of lists only.\<close>

fun py_append :: "pyval \<Rightarrow> pyval \<Rightarrow> exn + pyval" where
  "py_append (PList xs) x = Inr (PList (xs @ [x]))"
| "py_append PNone x = Inl AttributeError"
| "py_append (PBool b) x = Inl AttributeError"
| "py_append (PInt n) x = Inl AttributeError"
| "py_append (PStr s) x = Inl AttributeError"
| "py_append (PDict d) x = Inl AttributeError"

text \<open>
  \<^verbatim>\<open>v[i][k] = x\<close> for an index \<open>i\<close> and a string key \<open>k\<close>: \<open>v\<close> must be a list with an
  \<open>i\<close>-th element that is a dictionary.
\<close>

fun py_setitem_at :: "pyval \<Rightarrow> nat \<Rightarrow> string \<Rightarrow> pyval \<Rightarrow> exn + pyval" where
  "py_setitem_at (PList xs) i k x =
     (if i < length xs then
        (case xs ! i of
           PDict d \<Rightarrow> Inr (PList (xs[i := PDict (AList.update k x d)]))
         | _ \<Rightarrow> Inl TypeError)
      else Inl IndexError)"
| "py_setitem_at (PDict d) i k x = Inl KeyError"
| "py_setitem_at (PStr s) i k x = (if i < length s then Inl TypeError else Inl IndexError)"
| "py_setitem_at PNone i k x = Inl TypeError"
| "py_setitem_at (PBool b) i k x = Inl TypeError"
| "py_setitem_at (PInt n) i k x = Inl TypeError"

section \<open>The environment: files and the json module\<close>

text \<open>
  What \<^verbatim>\<open>open(path, 'r')\<close> finds at a path: no file, a file that cannot be read, or
  text.
\<close>

datatype file_state = Absent | Unreadable | Text string

text \<open>
  What writing to a path meets: \<^verbatim>\<open>open(path, 'w')\<close> raises and the file is untouched;
  or the file is opened, which empties it, and the write raises, leaving in the file the
  text that got through; or the write goes through.
\<close>

datatype write_outcome = OpenFails | WriteFails string | WriteOk

record world =
  content :: "string \<Rightarrow> file_state"
  on_write :: "string \<Rightarrow> write_outcome"

text \<open>
  The two functions of the standard json module that the manager calls are parameters.
  \<open>dump\<close> is \<^verbatim>\<open>json.dump(v, file, indent=2)\<close>: it writes the text of the value, or
  raises on a value it cannot serialise after having written a part of the text. \<open>load\<close>
  is \<^verbatim>\<open>json.load(file)\<close> on the text it reads, raising on text it cannot parse.
\<close>

datatype dump_result = Raises exn string | Writes string

record json_module =
  dump :: "pyval \<Rightarrow> dump_result"
  load :: "string \<Rightarrow> exn + pyval"

section \<open>The data model\<close>

record User =
  id_of :: int
  name_of :: string
  email_of :: string
  active_of :: bool

definition to_dict :: "User \<Rightarrow> pyval" where
  "to_dict u =
     PDict [(''id'', PInt (id_of u)), (''name'', PStr (name_of u)),
            (''email'', PStr (email_of u)), (''active'', PBool (active_of u))]"

record manager =
  filename :: string
  users :: pyval

section \<open>UserManager\<close>

subsection \<open>Loading and saving\<close>

text \<open>The body of the \<^verbatim>\<open>try\<close> in \<^verbatim>\<open>_load_users\<close>: open, read, parse.\<close>

definition read_json :: "json_module \<Rightarrow> world \<Rightarrow> string \<Rightarrow> exn + pyval" where
  "read_json J w path =
     (case content w path of
        Absent \<Rightarrow> Inl FileNotFoundError
      | Unreadable \<Rightarrow> Inl OSError
      | Text s \<Rightarrow> load J s)"

text \<open>\<^verbatim>\<open>_load_users\<close>: the parsed data as it is, or the empty list from each handler.\<close>

definition load_users :: "json_module \<Rightarrow> world \<Rightarrow> string \<Rightarrow> pyval" where
  "load_users J w path =
     (case read_json J w path of
        Inr data \<Rightarrow> data
      | Inl FileNotFoundError \<Rightarrow> PList []
      | Inl JSONDecodeError \<Rightarrow> PList []
      | Inl _ \<Rightarrow> PList [])"

text \<open>
  \<^verbatim>\<open>__init__\<close>: the log line evaluates \<^verbatim>\<open>len(self.users)\<close> outside any \<^verbatim>\<open>try\<close>, so
  a loaded value without a length makes the constructor raise.
\<close>

definition init :: "json_module \<Rightarrow> world \<Rightarrow> string \<Rightarrow> exn + manager" where
  "init J w path =
     (let data = load_users J w path in
      case py_len data of
        Inl e \<Rightarrow> Inl e
      | Inr n \<Rightarrow> Inr \<lparr>filename = path, users = data\<rparr>)"

text \<open>
  \<^verbatim>\<open>_save_users\<close>: open the file for writing, dump the whole list into it, then log the
  number of users (inside the \<^verbatim>\<open>try\<close>); every exception becomes \<^verbatim>\<open>False\<close>. A failure
  after the file was opened leaves it with the part written so far, not with what it held.
\<close>

definition save_users :: "json_module \<Rightarrow> world \<Rightarrow> manager \<Rightarrow> bool \<times> world" where
  "save_users J w m =
     (case on_write w (filename m) of
        OpenFails \<Rightarrow> (False, w)
      | WriteFails left \<Rightarrow> (False, w\<lparr>content := (content w)(filename m := Text left)\<rparr>)
      | WriteOk \<Rightarrow>
          (case dump J (users m) of
             Raises e part \<Rightarrow> (False, w\<lparr>content := (content w)(filename m := Text part)\<rparr>)
           | Writes text \<Rightarrow>
               let w' = w\<lparr>content := (content w)(filename m := Text text)\<rparr> in
               case py_len (users m) of
                 Inl e \<Rightarrow> (False, w')
               | Inr n \<Rightarrow> (True, w')))"

subsection \<open>add\_user\<close>

text \<open>The duplicate-email loop: the first record that raises or matches ends it.\<close>

fun email_exists :: "pyval list \<Rightarrow> string \<Rightarrow> exn + bool" where
  "email_exists [] email = Inr False"
| "email_exists (user # rest) email =
     (case py_get user ''email'' PNone of
        Inl e \<Rightarrow> Inl e
      | Inr v \<Rightarrow> if py_eq_str v email then Inr True else email_exists rest email)"

text \<open>The comprehension \<^verbatim>\<open>[user.get("id", 0) for user in self.users]\<close>.\<close>

fun collect_ids :: "pyval list \<Rightarrow> exn + pyval list" where
  "collect_ids [] = Inr []"
| "collect_ids (user # rest) =
     (case py_get user ''id'' (PInt 0) of
        Inl e \<Rightarrow> Inl e
      | Inr v \<Rightarrow> (case collect_ids rest of Inl e \<Rightarrow> Inl e | Inr vs \<Rightarrow> Inr (v # vs)))"

definition new_id :: "pyval list \<Rightarrow> exn + int" where
  "new_id us = (case collect_ids us of Inl e \<Rightarrow> Inl e | Inr vs \<Rightarrow> py_max_default0_plus_1 vs)"

text \<open>
  \<^verbatim>\<open>add_user\<close> returns the new user or \<^verbatim>\<open>None\<close>, with the manager and the files as it
  leaves them. Every \<open>Inl\<close> branch is the \<^verbatim>\<open>except Exception\<close> handler.
\<close>

definition add_user ::
  "json_module \<Rightarrow> world \<Rightarrow> manager \<Rightarrow> string \<Rightarrow> string \<Rightarrow> User option \<times> manager \<times> world" where
  "add_user J w m name email =
     (if name = [] \<or> email = [] then (None, m, w)
      else if CHR ''@'' \<notin> set email then (None, m, w)
      else
        case py_iter (users m) of
          Inl e \<Rightarrow> (None, m, w)
        | Inr us \<Rightarrow>
            (case email_exists us email of
               Inl e \<Rightarrow> (None, m, w)
             | Inr True \<Rightarrow> (None, m, w)
             | Inr False \<Rightarrow>
                 (case new_id us of
                    Inl e \<Rightarrow> (None, m, w)
                  | Inr n \<Rightarrow>
                      let user = \<lparr>id_of = n, name_of = name, email_of = email, active_of = True\<rparr>
                      in case py_append (users m) (to_dict user) of
                           Inl e \<Rightarrow> (None, m, w)
                         | Inr us' \<Rightarrow>
                             let m' = m\<lparr>users := us'\<rparr>;
                                 (success, w') = save_users J w m'
                             in (if success then Some user else None, m', w'))))"

subsection \<open>get\_user and list\_users\<close>

fun get_user_loop :: "pyval list \<Rightarrow> int \<Rightarrow> exn + pyval option" where
  "get_user_loop [] user_id = Inr None"
| "get_user_loop (user # rest) user_id =
     (case py_get user ''id'' PNone of
        Inl e \<Rightarrow> Inl e
      | Inr v \<Rightarrow> if py_eq_int v user_id then Inr (Some user) else get_user_loop rest user_id)"

definition get_user :: "manager \<Rightarrow> int \<Rightarrow> pyval option" where
  "get_user m user_id =
     (case py_iter (users m) of
        Inl e \<Rightarrow> None
      | Inr us \<Rightarrow> (case get_user_loop us user_id of Inl e \<Rightarrow> None | Inr r \<Rightarrow> r))"

text \<open>The comprehension \<^verbatim>\<open>[user for user in self.users if user.get("active", True)]\<close>.\<close>

fun active_users :: "pyval list \<Rightarrow> exn + pyval list" where
  "active_users [] = Inr []"
| "active_users (user # rest) =
     (case py_get user ''active'' (PBool True) of
        Inl e \<Rightarrow> Inl e
      | Inr v \<Rightarrow>
          (case active_users rest of
             Inl e \<Rightarrow> Inl e
           | Inr vs \<Rightarrow> Inr (if py_truthy v then user # vs else vs)))"

definition list_users :: "manager \<Rightarrow> bool \<Rightarrow> pyval" where
  "list_users m active_only =
     (if active_only then
        (case py_iter (users m) of
           Inl e \<Rightarrow> PList []
         | Inr us \<Rightarrow> (case active_users us of Inl e \<Rightarrow> PList [] | Inr vs \<Rightarrow> PList vs))
      else users m)"

subsection \<open>delete\_user\<close>

text \<open>The \<^verbatim>\<open>enumerate\<close> loop up to its first match: the index found, if any.\<close>

fun delete_user_loop :: "pyval list \<Rightarrow> nat \<Rightarrow> int \<Rightarrow> exn + nat option" where
  "delete_user_loop [] i user_id = Inr None"
| "delete_user_loop (user # rest) i user_id =
     (case py_get user ''id'' PNone of
        Inl e \<Rightarrow> Inl e
      | Inr v \<Rightarrow> if py_eq_int v user_id then Inr (Some i) else delete_user_loop rest (Suc i) user_id)"

definition delete_user ::
  "json_module \<Rightarrow> world \<Rightarrow> manager \<Rightarrow> int \<Rightarrow> bool \<times> manager \<times> world" where
  "delete_user J w m user_id =
     (case py_iter (users m) of
        Inl e \<Rightarrow> (False, m, w)
      | Inr us \<Rightarrow>
          (case delete_user_loop us 0 user_id of
             Inl e \<Rightarrow> (False, m, w)
           | Inr None \<Rightarrow> (False, m, w)
           | Inr (Some i) \<Rightarrow>
               (case py_setitem_at (users m) i ''active'' (PBool False) of
                  Inl e \<Rightarrow> (False, m, w)
                | Inr us' \<Rightarrow>
                    let m' = m\<lparr>users := us'\<rparr>;
                        (success, w') = save_users J w m'
                    in (success, m', w'))))"

section \<open>The json module on the values of the model\<close>

text \<open>
  \<^verbatim>\<open>json.dump(v, file, indent=2)\<close> and \<^verbatim>\<open>json.load(file)\<close> of the standard library, on the
  values of the model. A character is the code point it stands for, below 256. Reals,
  \<^verbatim>\<open>NaN\<close>, \<^verbatim>\<open>Infinity\<close> and escapes of code points from 256 on denote values outside the
  model, and the parser of the model refuses them; the limits of the interpreter (depth of
  recursion, digits of an integer) are not modelled.
\<close>

subsection \<open>Writing\<close>

text \<open>Decimal digits of a natural number, as \<^verbatim>\<open>repr\<close> prints them.\<close>

definition digit_char :: "nat \<Rightarrow> char" where
  "digit_char d = char_of (48 + d)"

function digits :: "nat \<Rightarrow> string" where
  "digits n = (if n < 10 then [digit_char n] else digits (n div 10) @ [digit_char (n mod 10)])"
  by pat_completeness auto
termination
  by (relation "measure id") auto

declare digits.simps [simp del]

definition int_repr :: "int \<Rightarrow> string" where
  "int_repr i = (if i < 0 then CHR ''-'' # digits (nat (- i)) else digits (nat i))"

text \<open>
  A string literal with \<^verbatim>\<open>ensure_ascii\<close>: the quote and the backslash are escaped, the
  five control characters with a short escape get it, every other character outside
  space to tilde becomes a \<^verbatim>\<open>\u00xx\<close> with lowercase hex digits.
\<close>

definition hex_char :: "nat \<Rightarrow> char" where
  "hex_char d = (if d < 10 then char_of (48 + d) else char_of (87 + d))"

definition escape_char :: "char \<Rightarrow> string" where
  \<open>escape_char c =
     (if c = CHR ''"'' then [CHR 0x5C, CHR ''"'']
      else if c = CHR 0x5C then [CHR 0x5C, CHR 0x5C]
      else if c = CHR 0x08 then [CHR 0x5C, CHR ''b'']
      else if c = CHR 0x0C then [CHR 0x5C, CHR ''f'']
      else if c = CHR 0x0A then [CHR 0x5C, CHR ''n'']
      else if c = CHR 0x0D then [CHR 0x5C, CHR ''r'']
      else if c = CHR 0x09 then [CHR 0x5C, CHR ''t'']
      else if 32 \<le> (of_char c :: nat) \<and> (of_char c :: nat) \<le> 126 then [c]
      else [CHR 0x5C, CHR ''u'', CHR ''0'', CHR ''0'',
            hex_char ((of_char c :: nat) div 16), hex_char ((of_char c :: nat) mod 16)])\<close>

definition str_repr :: "string \<Rightarrow> string" where
  \<open>str_repr s = CHR ''"'' # concat (map escape_char s) @ [CHR ''"'']\<close>

text \<open>A line break followed by the indentation of the level, two spaces a level.\<close>

definition newline_indent :: "nat \<Rightarrow> string" where
  "newline_indent level = CHR 0x0A # replicate (2 * level) CHR '' ''"

fun join :: "string \<Rightarrow> string list \<Rightarrow> string" where
  "join sep [] = []"
| "join sep [x] = x"
| "join sep (x # y # ys) = x @ sep @ join sep (y # ys)"

fun dumps :: "nat \<Rightarrow> pyval \<Rightarrow> string" where
  "dumps level PNone = ''null''"
| "dumps level (PBool b) = (if b then ''true'' else ''false'')"
| "dumps level (PInt i) = int_repr i"
| "dumps level (PStr s) = str_repr s"
| "dumps level (PList xs) =
     (if xs = [] then ''[]''
      else ''['' @ newline_indent (Suc level)
           @ join ('','' @ newline_indent (Suc level)) (map (dumps (Suc level)) xs)
           @ newline_indent level @ '']'')"
| "dumps level (PDict d) =
     (if d = [] then ''{}''
      else ''{'' @ newline_indent (Suc level)
           @ join ('','' @ newline_indent (Suc level))
               (map (\<lambda>kv. str_repr (fst kv) @ '': '' @ dumps (Suc level) (snd kv)) d)
           @ newline_indent level @ ''}'')"

definition json_dumps :: "pyval \<Rightarrow> string" where
  "json_dumps v = dumps 0 v"

subsection \<open>Reading\<close>

definition is_ws :: "char \<Rightarrow> bool" where
  "is_ws c = (c = CHR '' '' \<or> c = CHR 0x09 \<or> c = CHR 0x0A \<or> c = CHR 0x0D)"

definition skip_ws :: "string \<Rightarrow> string" where
  "skip_ws s = dropWhile is_ws s"

definition is_digit :: "char \<Rightarrow> bool" where
  "is_digit c = (48 \<le> (of_char c :: nat) \<and> (of_char c :: nat) \<le> 57)"

definition digits_value :: "string \<Rightarrow> nat" where
  "digits_value ds = foldl (\<lambda>a c. 10 * a + ((of_char c :: nat) - 48)) 0 ds"

text \<open>
  The integer part of a number: a single 0, or a digit from 1 to 9 followed by digits.
  None when the text does not start with a digit.
\<close>

definition scan_nat :: "string \<Rightarrow> (nat \<times> string) option" where
  "scan_nat s =
     (case s of
        [] \<Rightarrow> None
      | c # r \<Rightarrow>
          if c = CHR ''0'' then Some (0, r)
          else if is_digit c then Some (digits_value (takeWhile is_digit s), dropWhile is_digit s)
          else None)"

text \<open>The text goes on as a real: a fraction or an exponent follows the integer part.\<close>

definition real_follows :: "string \<Rightarrow> bool" where
  "real_follows r =
     (case r of
        c # d # r' \<Rightarrow>
          (c = CHR ''.'' \<and> is_digit d)
          \<or> ((c = CHR ''e'' \<or> c = CHR ''E'')
              \<and> (is_digit d \<or> ((d = CHR ''+'' \<or> d = CHR ''-'') \<and> (case r' of [] \<Rightarrow> False | x # _ \<Rightarrow> is_digit x))))
      | _ \<Rightarrow> False)"

definition scan_number :: "string \<Rightarrow> (pyval \<times> string) option" where
  "scan_number s =
     (case s of
        [] \<Rightarrow> None
      | c # r \<Rightarrow>
          (case (if c = CHR ''-'' then scan_nat r else scan_nat s) of
             None \<Rightarrow> None
           | Some (n, rest) \<Rightarrow>
               if real_follows rest then None
               else Some (PInt (if c = CHR ''-'' then - int n else int n), rest)))"

definition hex_value :: "char \<Rightarrow> nat option" where
  "hex_value c =
     (let n = (of_char c :: nat) in
      if 48 \<le> n \<and> n \<le> 57 then Some (n - 48)
      else if 97 \<le> n \<and> n \<le> 102 then Some (n - 87)
      else if 65 \<le> n \<and> n \<le> 70 then Some (n - 55)
      else None)"

definition hex4 :: "char \<Rightarrow> char \<Rightarrow> char \<Rightarrow> char \<Rightarrow> nat option" where
  "hex4 a b c d =
     (case (hex_value a, hex_value b, hex_value c, hex_value d) of
        (Some x, Some y, Some z, Some u) \<Rightarrow> Some (4096 * x + 256 * y + 16 * z + u)
      | _ \<Rightarrow> None)"

definition unescape :: "char \<Rightarrow> char option" where
  \<open>unescape e =
     (if e = CHR ''"'' then Some (CHR ''"'')
      else if e = CHR 0x5C then Some (CHR 0x5C)
      else if e = CHR ''/'' then Some (CHR ''/'')
      else if e = CHR ''b'' then Some (CHR 0x08)
      else if e = CHR ''f'' then Some (CHR 0x0C)
      else if e = CHR ''n'' then Some (CHR 0x0A)
      else if e = CHR ''r'' then Some (CHR 0x0D)
      else if e = CHR ''t'' then Some (CHR 0x09)
      else None)\<close>

text \<open>
  A string after its opening quote, up to the closing one: the characters it denotes and
  the text after it. A raw control character is refused.
\<close>

fun scanstring :: "string \<Rightarrow> (string \<times> string) option" where
  "scanstring [] = None"
| "scanstring (c # r) =
     (if c = CHR 0x22 then Some ([], r)
      else if c = CHR 0x5C then
        (case r of
           [] \<Rightarrow> None
         | e # r1 \<Rightarrow>
             if e = CHR ''u'' then
               (case r1 of
                  a # b # x # y # r2 \<Rightarrow>
                    (case hex4 a b x y of
                       None \<Rightarrow> None
                     | Some n \<Rightarrow>
                         if n < 256 then
                           (case scanstring r2 of
                              None \<Rightarrow> None
                            | Some (t, rest) \<Rightarrow> Some (char_of n # t, rest))
                         else None)
                | _ \<Rightarrow> None)
             else
               (case unescape e of
                  None \<Rightarrow> None
                | Some ch \<Rightarrow>
                    (case scanstring r1 of
                       None \<Rightarrow> None
                     | Some (t, rest) \<Rightarrow> Some (ch # t, rest))))
      else if (of_char c :: nat) < 32 then None
      else
        (case scanstring r of
           None \<Rightarrow> None
         | Some (t, rest) \<Rightarrow> Some (c # t, rest)))"

text \<open>\<^verbatim>\<open>dict(pairs)\<close>: a key that comes again replaces the value and keeps its place.\<close>

definition dict_of :: "(string \<times> pyval) list \<Rightarrow> (string \<times> pyval) list" where
  "dict_of kvs = fold (\<lambda>kv d. AList.update (fst kv) (snd kv) d) kvs []"

text \<open>
  The scanner. Each call takes a bound on the calls below it, and \<open>json_loads\<close> starts
  with the length of the text, which no parse exceeds. \<open>parse_value\<close> is at the first
  character of a value; \<open>parse_items\<close> is at the first item of a non-empty array and
  reads to its closing bracket; \<open>parse_members\<close> is at the first key of a non-empty
  object and reads to its closing brace.
\<close>

fun parse_value :: "nat \<Rightarrow> string \<Rightarrow> (pyval \<times> string) option"
  and parse_items :: "nat \<Rightarrow> string \<Rightarrow> (pyval list \<times> string) option"
  and parse_members :: "nat \<Rightarrow> string \<Rightarrow> ((string \<times> pyval) list \<times> string) option" where
  "parse_value 0 s = None"
| "parse_value (Suc n) s =
     (case s of
        [] \<Rightarrow> None
      | c # r \<Rightarrow>
          if c = CHR 0x22 then
            (case scanstring r of None \<Rightarrow> None | Some (t, rest) \<Rightarrow> Some (PStr t, rest))
          else if c = CHR ''{'' then
            (case skip_ws r of
               [] \<Rightarrow> None
             | x # r1 \<Rightarrow>
                 if x = CHR ''}'' then Some (PDict [], r1)
                 else (case parse_members n (x # r1) of
                         None \<Rightarrow> None
                       | Some (kvs, rest) \<Rightarrow> Some (PDict (dict_of kvs), rest)))
          else if c = CHR ''['' then
            (case skip_ws r of
               [] \<Rightarrow> None
             | x # r1 \<Rightarrow>
                 if x = CHR '']'' then Some (PList [], r1)
                 else (case parse_items n (x # r1) of
                         None \<Rightarrow> None
                       | Some (vs, rest) \<Rightarrow> Some (PList vs, rest)))
          else if take 4 s = ''null'' then Some (PNone, drop 4 s)
          else if take 4 s = ''true'' then Some (PBool True, drop 4 s)
          else if take 5 s = ''false'' then Some (PBool False, drop 5 s)
          else scan_number s)"
| "parse_items 0 s = None"
| "parse_items (Suc n) s =
     (case parse_value n s of
        None \<Rightarrow> None
      | Some (v, r) \<Rightarrow>
          (case skip_ws r of
             [] \<Rightarrow> None
           | x # r1 \<Rightarrow>
               if x = CHR '']'' then Some ([v], r1)
               else if x = CHR '','' then
                 (case parse_items n (skip_ws r1) of
                    None \<Rightarrow> None
                  | Some (vs, rest) \<Rightarrow> Some (v # vs, rest))
               else None))"
| "parse_members 0 s = None"
| "parse_members (Suc n) s =
     (case s of
        [] \<Rightarrow> None
      | q # s1 \<Rightarrow>
          if q \<noteq> CHR 0x22 then None
          else
            (case scanstring s1 of
               None \<Rightarrow> None
             | Some (k, r) \<Rightarrow>
                 (case skip_ws r of
                    [] \<Rightarrow> None
                  | x # r1 \<Rightarrow>
                      if x \<noteq> CHR '':'' then None
                      else
                        (case parse_value n (skip_ws r1) of
                           None \<Rightarrow> None
                         | Some (v, r2) \<Rightarrow>
                             (case skip_ws r2 of
                                [] \<Rightarrow> None
                              | y # r3 \<Rightarrow>
                                  if y = CHR ''}'' then Some ([(k, v)], r3)
                                  else if y = CHR '','' then
                                    (case parse_members n (skip_ws r3) of
                                       None \<Rightarrow> None
                                     | Some (kvs, rest) \<Rightarrow> Some ((k, v) # kvs, rest))
                                  else None)))))"

definition json_loads :: "string \<Rightarrow> exn + pyval" where
  "json_loads s =
     (case parse_value (Suc (2 * length s)) (skip_ws s) of
        None \<Rightarrow> Inl JSONDecodeError
      | Some (v, rest) \<Rightarrow> if skip_ws rest = [] then Inr v else Inl JSONDecodeError)"

definition python_json :: json_module where
  "python_json = \<lparr>dump = (\<lambda>v. Writes (json_dumps v)), load = json_loads\<rparr>"

text \<open>A value of the model is a Python value when the keys of each dictionary are distinct.\<close>

fun py_wf :: "pyval \<Rightarrow> bool" where
  "py_wf (PList xs) = list_all py_wf xs"
| "py_wf (PDict d) = (distinct (map fst d) \<and> list_all (\<lambda>kv. py_wf (snd kv)) d)"
| "py_wf PNone = True"
| "py_wf (PBool b) = True"
| "py_wf (PInt i) = True"
| "py_wf (PStr s) = True"


subsection \<open>Shapes of the written text\<close>

text \<open>What may follow a value in the written text: nothing, a comma or a line break.\<close>

definition delim :: "string \<Rightarrow> bool" where
  "delim rest = (case rest of [] \<Rightarrow> True | c # _ \<Rightarrow> c = CHR '','' \<or> c = CHR 0x0A)"

text \<open>The first character of a value: not white space, not a closing bracket.\<close>

definition opens :: "string \<Rightarrow> bool" where
  "opens s = (case s of [] \<Rightarrow> False
              | c # _ \<Rightarrow> \<not> is_ws c \<and> c \<noteq> CHR '']'' \<and> c \<noteq> CHR ''}'')"

section \<open>Sequences of operations\<close>

text \<open>
  The four operations of the interface. \<^verbatim>\<open>get_user\<close> and \<^verbatim>\<open>list_users\<close> assign nothing
  to \<^verbatim>\<open>self\<close>, so they leave the manager as it is. Each operation of a run comes with the
  state of the files it meets, since anything may happen to the files between two calls;
  a run on files nobody else touches is the case where each world is the one the previous
  call left.
\<close>

datatype op = Add string string | Get int | ListUsers bool | Delete int

fun exec :: "json_module \<Rightarrow> world \<Rightarrow> manager \<Rightarrow> op \<Rightarrow> manager" where
  "exec J w m (Add name email) = fst (snd (add_user J w m name email))"
| "exec J w m (Get user_id) = m"
| "exec J w m (ListUsers active_only) = m"
| "exec J w m (Delete user_id) = fst (snd (delete_user J w m user_id))"

fun run :: "json_module \<Rightarrow> manager \<Rightarrow> (world \<times> op) list \<Rightarrow> manager" where
  "run J m [] = m"
| "run J m (step # rest) = run J (exec J (fst step) m (snd step)) rest"

section \<open>Reading records\<close>

text \<open>A record is a dictionary; these read the fields the properties below speak about.\<close>

fun is_dict :: "pyval \<Rightarrow> bool" where
  "is_dict (PDict d) = True"
| "is_dict PNone = False"
| "is_dict (PBool b) = False"
| "is_dict (PInt n) = False"
| "is_dict (PStr s) = False"
| "is_dict (PList xs) = False"

text \<open>The field \<open>k\<close> of a record, \<open>None\<close> when the record has no such key.\<close>

fun field :: "pyval \<Rightarrow> string \<Rightarrow> pyval option" where
  "field (PDict d) k = map_of d k"
| "field PNone k = None"
| "field (PBool b) k = None"
| "field (PInt n) k = None"
| "field (PStr s) k = None"
| "field (PList xs) k = None"

text \<open>The record's email is the string \<open>email\<close>.\<close>

definition has_email :: "pyval \<Rightarrow> string \<Rightarrow> bool" where
  "has_email u email = (field u ''email'' = Some (PStr email))"

text \<open>
  The record's id as a number, a missing id counting as 0 (as \<^verbatim>\<open>user.get("id", 0)\<close>
  reads it); \<open>None\<close> when the value is not a dictionary or its id is not a number.
\<close>

definition record_id :: "pyval \<Rightarrow> int option" where
  "record_id u =
     (if is_dict u then
        (case field u ''id'' of None \<Rightarrow> Some 0 | Some v \<Rightarrow> py_num v)
      else None)"


text \<open>The id the next added record gets: one more than the largest, 1 in an empty store.\<close>

definition next_id :: "pyval list \<Rightarrow> int" where
  "next_id us = (if us = [] then 1 else Max (set (map (\<lambda>u. the (record_id u)) us)) + 1)"

text \<open>A record of the data model as far as the active flag goes: absent or a boolean.\<close>

definition active_typed :: "pyval \<Rightarrow> bool" where
  "active_typed u =
     (is_dict u \<and> (case field u ''active'' of
                      None \<Rightarrow> True | Some (PBool b) \<Rightarrow> True | Some _ \<Rightarrow> False))"

text \<open>
  The test of the active filter, \<^verbatim>\<open>user.get("active", True)\<close>, on a record: a missing
  field counts as true, a present one by its truth value.
\<close>

definition active_truthy :: "pyval \<Rightarrow> bool" where
  "active_truthy u = (case field u ''active'' of None \<Rightarrow> True | Some v \<Rightarrow> py_truthy v)"

text \<open>A record with its active field set to false, as \<^verbatim>\<open>user["active"] = False\<close> leaves it.\<close>

fun deactivated :: "pyval \<Rightarrow> pyval" where
  "deactivated (PDict d) = PDict (AList.update ''active'' (PBool False) d)"
| "deactivated PNone = PNone"
| "deactivated (PBool b) = PBool b"
| "deactivated (PInt n) = PInt n"
| "deactivated (PStr s) = PStr s"
| "deactivated (PList xs) = PList xs"

text \<open>The \<open>j\<close>-th element of the store is a record whose active field is false.\<close>

fun inactive_at :: "pyval \<Rightarrow> nat \<Rightarrow> bool" where
  "inactive_at (PList us) j = (j < length us \<and> field (us ! j) ''active'' = Some (PBool False))"
| "inactive_at PNone j = False"
| "inactive_at (PBool b) j = False"
| "inactive_at (PInt n) j = False"
| "inactive_at (PStr s) j = False"
| "inactive_at (PDict d) j = False"

section \<open>Example data\<close>

definition ann :: pyval where
  "ann = PDict [(''id'', PInt 1), (''name'', PStr ''Ann''),
                (''email'', PStr ''ann@x.com''), (''active'', PBool True)]"

definition bo :: pyval where
  "bo = PDict [(''id'', PInt 2), (''name'', PStr ''Bo''),
               (''email'', PStr ''bo@x.com''), (''active'', PBool True)]"

text \<open>Ann after a soft delete.\<close>

definition ann_inactive :: pyval where
  "ann_inactive = PDict [(''id'', PInt 1), (''name'', PStr ''Ann''),
                (''email'', PStr ''ann@x.com''), (''active'', PBool False)]"

text \<open>A record without an active field.\<close>

definition cy :: pyval where
  "cy = PDict [(''id'', PInt 3), (''name'', PStr ''Cy''), (''email'', PStr ''cy@x.com'')]"

text \<open>The text \<^verbatim>\<open>json.dump(..., indent=2)\<close> writes for the store of Ann and Bo.\<close>

definition ann_bo_text :: string where
  \<open>ann_bo_text =
     ''[\<newline>  {\<newline>    "id": 1,\<newline>    "name": "Ann",\<newline>    "email": "ann@x.com",\<newline>    "active": true\<newline>  },\<newline>  {\<newline>    "id": 2,\<newline>    "name": "Bo",\<newline>    "email": "bo@x.com",\<newline>    "active": true\<newline>  }\<newline>]''\<close>

text \<open>The same for the store of Ann, soft-deleted, and Bo.\<close>

definition ann_off_bo_text :: string where
  \<open>ann_off_bo_text =
     ''[\<newline>  {\<newline>    "id": 1,\<newline>    "name": "Ann",\<newline>    "email": "ann@x.com",\<newline>    "active": false\<newline>  },\<newline>  {\<newline>    "id": 2,\<newline>    "name": "Bo",\<newline>    "email": "bo@x.com",\<newline>    "active": true\<newline>  }\<newline>]''\<close>

text \<open>A file that parses, with a repeated id, a missing name and an email without @.\<close>

definition odd_text :: string where
  \<open>odd_text = ''[{"id": 1, "email": "nowhere"}, {"id": 1, "active": null}]''\<close>

definition odd_store :: pyval where
  "odd_store = PList [PDict [(''id'', PInt 1), (''email'', PStr ''nowhere'')],
                      PDict [(''id'', PInt 1), (''active'', PNone)]]"

text \<open>
  The json module on the documents of the examples: a table of texts and the values they
  denote. Any other text is taken not to parse.
\<close>

definition example_docs :: "(string \<times> pyval) list" where
  "example_docs =
     [(ann_bo_text, PList [ann, bo]), (ann_off_bo_text, PList [ann_inactive, bo]),
      (''5'', PInt 5), (odd_text, odd_store)]"

definition example_json :: json_module where
  "example_json =
     \<lparr>dump = (\<lambda>v. case find (\<lambda>p. snd p = v) example_docs of
                     Some p \<Rightarrow> Writes (fst p) | None \<Rightarrow> Writes []),
      load = (\<lambda>s. case map_of example_docs s of Some v \<Rightarrow> Inr v | None \<Rightarrow> Inl JSONDecodeError)\<rparr>"

text \<open>No files and every write goes through; no files and no file can be opened for writing.\<close>

definition fresh_world :: world where
  "fresh_world = \<lparr>content = (\<lambda>path. Absent), on_write = (\<lambda>path. WriteOk)\<rparr>"

definition readonly_world :: world where
  "readonly_world = \<lparr>content = (\<lambda>path. Absent), on_write = (\<lambda>path. OpenFails)\<rparr>"

text \<open>One file, \<^verbatim>\<open>users.json\<close>, holding the given text.\<close>

definition world_with :: "string \<Rightarrow> world" where
  "world_with s =
     \<lparr>content = (\<lambda>path. if path = ''users.json'' then Text s else Absent),
      on_write = (\<lambda>path. WriteOk)\<rparr>"

section \<open>Construction from a missing or unusable file\<close>

lemma load_users_failed:
  "read_json J w path = Inl e \<Longrightarrow> load_users J w path = PList []"
  by (cases e) (simp_all add: load_users_def)

text \<open>
  C5. When the file is absent, or cannot be read, or its text does not parse (whatever
  the exception \<open>e\<close> raised by the parser), the constructor returns a manager (no exception
  escapes it) whose sequence of users is empty.
\<close>

theorem init_fails_soft:
  assumes "content w path = Absent \<or> content w path = Unreadable
           \<or> (\<exists>s e. content w path = Text s \<and> load J s = Inl e)"
  shows "init J w path = Inr \<lparr>filename = path, users = PList []\<rparr>"
proof -
  from assms obtain e where "read_json J w path = Inl e"
    by (auto simp: read_json_def)
  then have "load_users J w path = PList []"
    by (rule load_users_failed)
  then show ?thesis
    by (simp add: init_def)
qed

theorem init_fails_soft_witness:
  "content fresh_world ''users.json'' = Absent
   \<and> init example_json fresh_world ''users.json'' = Inr \<lparr>filename = ''users.json'', users = PList []\<rparr>"
  using init_fails_soft [of fresh_world "''users.json''" example_json]
  by (simp add: fresh_world_def)

section \<open>Construction from a file that parses\<close>

lemma load_users_parsed:
  "content w path = Text s \<Longrightarrow> load J s = Inr v \<Longrightarrow> load_users J w path = v"
  by (simp add: load_users_def read_json_def)

text \<open>
  \<^verbatim>\<open>_load_users\<close> checks nothing: a parsed value that has a length becomes the store as it
  is, whatever its elements are.
\<close>

lemma init_stores_parsed_value:
  assumes "content w path = Text s" and "load J s = Inr v" and "py_len v = Inr n"
  shows "init J w path = Inr \<lparr>filename = path, users = v\<rparr>"
  using assms by (simp add: init_def load_users_parsed)

lemma init_stores_odd_store:
  "init example_json (world_with odd_text) ''users.json''
     = Inr \<lparr>filename = ''users.json'', users = odd_store\<rparr>"
proof -
  have c: "content (world_with odd_text) ''users.json'' = Text odd_text"
    by (simp add: world_with_def)
  have l: "load example_json odd_text = Inr odd_store"
    by (simp add: example_json_def example_docs_def odd_text_def ann_bo_text_def
        ann_off_bo_text_def)
  have n: "py_len odd_store = Inr 2"
    by (simp add: odd_store_def)
  show ?thesis
    using c l n by (rule init_stores_parsed_value)
qed

text \<open>
  C10. Any content that parses is to become the store. At a file holding the JSON number
  5, which parses, the constructor does not return a manager: the log line of
  \<^verbatim>\<open>__init__\<close> evaluates \<^verbatim>\<open>len(self.users)\<close> outside any \<^verbatim>\<open>try\<close> and raises
  \<^verbatim>\<open>TypeError\<close>. The same holds for every parsed number, boolean and \<^verbatim>\<open>null\<close>.
\<close>

theorem init_scalar_raises:
  "content (world_with ''5'') ''users.json'' = Text ''5''
   \<and> load example_json ''5'' = Inr (PInt 5)
   \<and> init example_json (world_with ''5'') ''users.json'' = Inl TypeError"
  by (simp add: init_def load_users_def read_json_def world_with_def example_json_def
      example_docs_def ann_bo_text_def ann_off_bo_text_def)

section \<open>Adding users\<close>

lemma is_dict_conv: "is_dict u \<longleftrightarrow> (\<exists>d. u = PDict d)"
  by (cases u) simp_all

lemma record_id_is_dict: "record_id u \<noteq> None \<Longrightarrow> is_dict u"
  by (simp add: record_id_def split: if_splits)

lemma email_exists_no_match:
  "\<forall>u\<in>set us. is_dict u \<and> \<not> has_email u email \<Longrightarrow> email_exists us email = Inr False"
proof (induction us)
  case Nil
  then show ?case by simp
next
  case (Cons u us)
  then obtain d where d: "u = PDict d" and "\<not> has_email u email"
    by (auto simp: is_dict_conv)
  then have "\<not> py_eq_str (case map_of d ''email'' of None \<Rightarrow> PNone | Some x \<Rightarrow> x) email"
    by (cases "map_of d ''email''"; cases "the (map_of d ''email'')") (auto simp: has_email_def)
  with Cons d show ?case by simp
qed

lemma py_eq_str_conv: "py_eq_str v s \<longleftrightarrow> v = PStr s"
  by (cases v) auto

lemma email_exists_match:
  "\<exists>u\<in>set us. has_email u email \<Longrightarrow> email_exists us email \<noteq> Inr False"
proof (induction us)
  case Nil
  then show ?case by simp
next
  case (Cons u us)
  show ?case
  proof (cases u)
    case (PDict d)
    then show ?thesis using Cons
      by (auto simp: has_email_def py_eq_str_conv split: option.splits)
  qed simp_all
qed

lemma collect_ids_typed:
  "\<forall>u\<in>set us. is_dict u \<Longrightarrow>
   collect_ids us = Inr (map (\<lambda>u. case field u ''id'' of None \<Rightarrow> PInt 0 | Some v \<Rightarrow> v) us)"
proof (induction us)
  case Nil
  then show ?case by simp
next
  case (Cons u us)
  then obtain d where "u = PDict d" by (auto simp: is_dict_conv)
  with Cons show ?case by simp
qed

lemma those_map_Some:
  "\<forall>x\<in>set xs. f x \<noteq> None \<Longrightarrow> those (map f xs) = Some (map (\<lambda>x. the (f x)) xs)"
  by (induction xs) auto

lemma py_num_id_value:
  "record_id u \<noteq> None \<Longrightarrow>
   py_num (case field u ''id'' of None \<Rightarrow> PInt 0 | Some v \<Rightarrow> v) = record_id u"
  by (auto simp: record_id_def split: if_splits option.splits)

lemma fold_max_Max: "fold max ns (n::int) = Max (set (n # ns))"
  by (simp only: Max.set_eq_fold)

lemma new_id_typed:
  assumes "\<forall>u\<in>set us. record_id u \<noteq> None"
  shows "new_id us = Inr (next_id us)"
proof -
  let ?g = "\<lambda>u. case field u ''id'' of None \<Rightarrow> PInt 0 | Some v \<Rightarrow> v"
  from assms have "\<forall>u\<in>set us. is_dict u"
    by (blast intro: record_id_is_dict)
  then have c: "collect_ids us = Inr (map ?g us)"
    by (rule collect_ids_typed)
  have e: "map py_num (map ?g us) = map record_id us"
    using assms by (simp add: py_num_id_value)
  have t: "those (map py_num (map ?g us)) = Some (map (\<lambda>u. the (record_id u)) us)"
    unfolding e using assms by (rule those_map_Some)
  show ?thesis
  proof (cases us)
    case Nil
    then show ?thesis
      by (simp add: new_id_def py_max_default0_plus_1_def next_id_def)
  next
    case (Cons u rest)
    have "fold max (map (\<lambda>u. the (record_id u)) rest) (the (record_id u))
          = Max (set (map (\<lambda>u. the (record_id u)) (u # rest)))"
      using fold_max_Max [of "map (\<lambda>u. the (record_id u)) rest" "the (record_id u)"] by simp
    with c t Cons show ?thesis
      by (simp add: new_id_def py_max_default0_plus_1_def next_id_def)
  qed
qed

lemma add_user_valid:
  assumes "users m = PList us"
    and "\<forall>u\<in>set us. record_id u \<noteq> None"
    and "name \<noteq> []" and "email \<noteq> []" and "CHR ''@'' \<in> set email"
    and "\<forall>u\<in>set us. \<not> has_email u email"
    and "user = \<lparr>id_of = next_id us, name_of = name, email_of = email, active_of = True\<rparr>"
    and "m' = m\<lparr>users := PList (us @ [to_dict user])\<rparr>"
  shows "add_user J w m name email =
           (if fst (save_users J w m') then Some user else None, m', snd (save_users J w m'))"
proof -
  from assms(2,6) have "email_exists us email = Inr False"
    by (intro email_exists_no_match) (blast intro: record_id_is_dict)
  moreover from assms(2) have "new_id us = Inr (next_id us)"
    by (rule new_id_typed)
  ultimately show ?thesis
    using assms(1,3,4,5,7,8) by (simp add: add_user_def Let_def split_beta)
qed

lemma add_user_rejected:
  assumes "py_iter (users m) = Inr us" and "email_exists us email \<noteq> Inr False"
  shows "add_user J w m name email = (None, m, w)"
  using assms by (auto simp: add_user_def split: sum.splits bool.splits)

text \<open>
  C1, as stated, fails: with a valid name and email and an empty store, \<^verbatim>\<open>add_user\<close>
  returns nothing when the file cannot be written.
\<close>

theorem add_user_readonly_returns_nothing:
  "fst (add_user example_json readonly_world \<lparr>filename = ''users.json'', users = PList []\<rparr>
          ''Ann'' ''ann@x.com'') = None"
  by (simp add: add_user_def new_id_def py_max_default0_plus_1_def save_users_def
      readonly_world_def)

text \<open>
  C1, amended. In a store of records whose ids are numbers, for a non-empty name and a
  non-empty email that contains @ and is the email of no record, when the save succeeds,
  \<^verbatim>\<open>add_user\<close> returns the user \<open>user\<close>, which is active and whose id is one more than
  the largest id of the store (1 in an empty store), and the store it leaves is the old one
  with the dictionary of \<open>user\<close> appended at the end.
\<close>

theorem add_user_returns_record:
  assumes "users m = PList us"
    and "\<forall>u\<in>set us. record_id u \<noteq> None"
    and "name \<noteq> []" and "email \<noteq> []" and "CHR ''@'' \<in> set email"
    and "\<forall>u\<in>set us. \<not> has_email u email"
    and "user = \<lparr>id_of = next_id us, name_of = name, email_of = email, active_of = True\<rparr>"
    and "m' = m\<lparr>users := PList (us @ [to_dict user])\<rparr>"
    and "fst (save_users J w m')"
  shows "add_user J w m name email = (Some user, m', snd (save_users J w m'))
         \<and> active_of user = True
         \<and> id_of user = (if us = [] then 1 else Max (set (map (\<lambda>u. the (record_id u)) us)) + 1)"
  using add_user_valid [OF assms(1-8)] assms(7,9) by (simp add: next_id_def)

theorem add_user_returns_record_witness:
  "add_user example_json fresh_world \<lparr>filename = ''users.json'', users = PList [ann]\<rparr>
      ''Bo'' ''bo@x.com''
   = (Some \<lparr>id_of = 2, name_of = ''Bo'', email_of = ''bo@x.com'', active_of = True\<rparr>,
      \<lparr>filename = ''users.json'', users = PList [ann, bo]\<rparr>,
      world_with ann_bo_text)"
proof -
  let ?m = "\<lparr>filename = ''users.json'', users = PList [ann]\<rparr>"
  let ?u = "\<lparr>id_of = next_id [ann], name_of = ''Bo'', email_of = ''bo@x.com'', active_of = True\<rparr>"
  let ?m' = "?m\<lparr>users := PList ([ann] @ [to_dict ?u])\<rparr>"
  have n: "next_id [ann] = 2"
    by (simp add: next_id_def record_id_def ann_def)
  have b: "to_dict \<lparr>id_of = 2, name_of = ''Bo'', email_of = ''bo@x.com'', active_of = True\<rparr> = bo"
    by (simp add: to_dict_def bo_def)
  have d: "dump example_json (PList [ann, bo]) = Writes ann_bo_text"
    by (simp add: example_json_def example_docs_def)
  have s: "save_users example_json fresh_world ?m' = (True, world_with ann_bo_text)"
    by (simp add: n b save_users_def d fresh_world_def world_with_def fun_eq_iff)
  have h1: "users ?m = PList [ann]"
    by simp
  have h2: "\<forall>u\<in>set [ann]. record_id u \<noteq> None"
    by (simp add: record_id_def ann_def)
  have h3: "''Bo'' \<noteq> []" and h4: "''bo@x.com'' \<noteq> []" and h5: "CHR ''@'' \<in> set ''bo@x.com''"
    by simp_all
  have h6: "\<forall>u\<in>set [ann]. \<not> has_email u ''bo@x.com''"
    by (simp add: has_email_def ann_def)
  have h9: "fst (save_users example_json fresh_world ?m')"
    by (simp only: s fst_conv)
  note r = add_user_returns_record [OF h1 h2 h3 h4 h5 h6 refl refl h9]
  from r [unfolded s] show ?thesis
    by (simp add: n b)
qed

text \<open>
  C2. In every store, \<^verbatim>\<open>add_user\<close> returns nothing and leaves the manager and the files
  as they were when the name is empty, the email is empty, the email has no @, or some
  record of the store, active or not, has that email.
\<close>

theorem add_user_rejects:
  assumes "name = [] \<or> email = [] \<or> CHR ''@'' \<notin> set email
           \<or> (\<exists>us. users m = PList us \<and> (\<exists>u\<in>set us. has_email u email))"
  shows "add_user J w m name email = (None, m, w)"
proof (cases "name = [] \<or> email = [] \<or> CHR ''@'' \<notin> set email")
  case True
  then show ?thesis by (auto simp: add_user_def)
next
  case False
  with assms obtain us where us: "users m = PList us" and "\<exists>u\<in>set us. has_email u email"
    by blast
  then have "email_exists us email \<noteq> Inr False"
    by (intro email_exists_match)
  with us show ?thesis
    by (intro add_user_rejected) simp_all
qed

theorem add_user_rejects_witness:
  "has_email ann_inactive ''ann@x.com''
   \<and> field ann_inactive ''active'' = Some (PBool False)
   \<and> add_user example_json fresh_world \<lparr>filename = ''users.json'', users = PList [ann_inactive]\<rparr>
        ''Anna'' ''ann@x.com''
      = (None, \<lparr>filename = ''users.json'', users = PList [ann_inactive]\<rparr>, fresh_world)
   \<and> add_user example_json fresh_world \<lparr>filename = ''users.json'', users = PList [ann_inactive]\<rparr>
        [] ''cy@x.com''
      = (None, \<lparr>filename = ''users.json'', users = PList [ann_inactive]\<rparr>, fresh_world)
   \<and> add_user example_json fresh_world \<lparr>filename = ''users.json'', users = PList [ann_inactive]\<rparr>
        ''Cy'' []
      = (None, \<lparr>filename = ''users.json'', users = PList [ann_inactive]\<rparr>, fresh_world)
   \<and> add_user example_json fresh_world \<lparr>filename = ''users.json'', users = PList [ann_inactive]\<rparr>
        ''Cy'' ''cy.x.com''
      = (None, \<lparr>filename = ''users.json'', users = PList [ann_inactive]\<rparr>, fresh_world)"
proof -
  let ?m = "\<lparr>filename = ''users.json'', users = PList [ann_inactive]\<rparr>"
  have h: "has_email ann_inactive ''ann@x.com''"
    by (simp add: has_email_def ann_inactive_def)
  have a: "field ann_inactive ''active'' = Some (PBool False)"
    by (simp add: ann_inactive_def)
  have 1: "add_user example_json fresh_world ?m ''Anna'' ''ann@x.com'' = (None, ?m, fresh_world)"
    using h by (intro add_user_rejects) simp
  have 2: "add_user example_json fresh_world ?m [] ''cy@x.com'' = (None, ?m, fresh_world)"
    by (intro add_user_rejects) simp
  have 3: "add_user example_json fresh_world ?m ''Cy'' [] = (None, ?m, fresh_world)"
    by (intro add_user_rejects) simp
  have 4: "add_user example_json fresh_world ?m ''Cy'' ''cy.x.com'' = (None, ?m, fresh_world)"
    by (intro add_user_rejects) simp
  from h a 1 2 3 4 show ?thesis by simp
qed

text \<open>
  C9. For a valid name and an email no record has, when the save that follows the append
  fails, \<^verbatim>\<open>add_user\<close> returns nothing, and the manager it leaves is \<open>m'\<close>, whose store
  is the old one with the new record still appended.
\<close>

theorem add_user_unsaved_not_rolled_back:
  assumes "users m = PList us"
    and "\<forall>u\<in>set us. record_id u \<noteq> None"
    and "name \<noteq> []" and "email \<noteq> []" and "CHR ''@'' \<in> set email"
    and "\<forall>u\<in>set us. \<not> has_email u email"
    and "user = \<lparr>id_of = next_id us, name_of = name, email_of = email, active_of = True\<rparr>"
    and "m' = m\<lparr>users := PList (us @ [to_dict user])\<rparr>"
    and "\<not> fst (save_users J w m')"
  shows "fst (add_user J w m name email) = None
         \<and> fst (snd (add_user J w m name email)) = m'
         \<and> users m' = PList (us @ [to_dict user])"
  using add_user_valid [OF assms(1-8)] assms(8,9) by simp

theorem add_user_unsaved_not_rolled_back_witness:
  "\<not> fst (save_users example_json readonly_world \<lparr>filename = ''users.json'', users = PList [ann, bo]\<rparr>)
   \<and> fst (add_user example_json readonly_world \<lparr>filename = ''users.json'', users = PList [ann]\<rparr>
             ''Bo'' ''bo@x.com'') = None
   \<and> fst (snd (add_user example_json readonly_world \<lparr>filename = ''users.json'', users = PList [ann]\<rparr>
             ''Bo'' ''bo@x.com'')) = \<lparr>filename = ''users.json'', users = PList [ann, bo]\<rparr>"
proof -
  let ?m = "\<lparr>filename = ''users.json'', users = PList [ann]\<rparr>"
  let ?u = "\<lparr>id_of = next_id [ann], name_of = ''Bo'', email_of = ''bo@x.com'', active_of = True\<rparr>"
  let ?m' = "?m\<lparr>users := PList ([ann] @ [to_dict ?u])\<rparr>"
  have n: "next_id [ann] = 2"
    by (simp add: next_id_def record_id_def ann_def)
  have b: "to_dict \<lparr>id_of = 2, name_of = ''Bo'', email_of = ''bo@x.com'', active_of = True\<rparr> = bo"
    by (simp add: to_dict_def bo_def)
  have s: "\<And>m. \<not> fst (save_users example_json readonly_world m)"
    by (simp add: save_users_def readonly_world_def)
  have h1: "users ?m = PList [ann]"
    by simp
  have h2: "\<forall>u\<in>set [ann]. record_id u \<noteq> None"
    by (simp add: record_id_def ann_def)
  have h3: "''Bo'' \<noteq> []" and h4: "''bo@x.com'' \<noteq> []" and h5: "CHR ''@'' \<in> set ''bo@x.com''"
    by simp_all
  have h6: "\<forall>u\<in>set [ann]. \<not> has_email u ''bo@x.com''"
    by (simp add: has_email_def ann_def)
  note r = add_user_unsaved_not_rolled_back [OF h1 h2 h3 h4 h5 h6 refl refl s]
  from r s show ?thesis
    by (simp add: n b)
qed

section \<open>Saving\<close>

lemma dump_example_json:
  "dump example_json v =
     Writes (case find (\<lambda>p. snd p = v) example_docs of Some p \<Rightarrow> fst p | None \<Rightarrow> [])"
  by (simp add: example_json_def split: option.splits)


section \<open>Soft delete\<close>

lemma field_deactivated:
  "is_dict u \<Longrightarrow>
   field (deactivated u) k = (if k = ''active'' then Some (PBool False) else field u k)"
  by (cases u) (simp_all add: update_conv')










section \<open>Listing\<close>

lemma active_users_dicts:
  "\<forall>u\<in>set us. is_dict u \<Longrightarrow> active_users us = Inr (filter active_truthy us)"
proof (induction us)
  case Nil
  then show ?case by simp
next
  case (Cons u us)
  then obtain d where "u = PDict d"
    by (auto simp: is_dict_conv)
  with Cons show ?case
    by (simp add: active_truthy_def split: option.splits)
qed

lemma active_users_non_dict:
  "\<exists>u\<in>set us. \<not> is_dict u \<Longrightarrow> \<exists>e. active_users us = Inl e"
proof (induction us)
  case Nil
  then show ?case by simp
next
  case (Cons u us)
  show ?case
  proof (cases "is_dict u")
    case True
    with Cons obtain e where "active_users us = Inl e"
      by auto
    with True show ?thesis
      by (cases u) simp_all
  next
    case False
    then show ?thesis
      by (cases u) simp_all
  qed
qed

lemma active_truthy_typed:
  "active_typed u \<Longrightarrow> active_truthy u \<longleftrightarrow> field u ''active'' \<noteq> Some (PBool False)"
  by (auto simp: active_typed_def active_truthy_def split: option.splits pyval.splits)

text \<open>
  C6, as stated, fails: a record whose active field is \<^verbatim>\<open>null\<close> has an active field that
  is not false, and \<^verbatim>\<open>list_users(True)\<close> leaves it out, because the filter tests the truth
  value of the field.
\<close>

theorem list_users_drops_null_active:
  "field (PDict [(''id'', PInt 1), (''active'', PNone)]) ''active'' = Some PNone
   \<and> list_users \<lparr>filename = ''users.json'', users = odd_store\<rparr> True
       = PList [PDict [(''id'', PInt 1), (''email'', PStr ''nowhere'')]]"
  by (simp add: list_users_def odd_store_def)

text \<open>
  C6, amended. In a store whose elements are all records, \<^verbatim>\<open>list_users(True)\<close> is the
  store without the records whose active field is present and falsy (false, but also
  \<^verbatim>\<open>null\<close>, 0 and the empty string, list and dictionary), in the order of the store; a
  record without the field stays. Where every active field is absent or a boolean, that
  is the store without the records whose active field is false. In a store with an
  element that is not a record it is the empty list. \<^verbatim>\<open>list_users(False)\<close> is the whole
  store.
\<close>

theorem list_users_filters_falsy:
  assumes "users m = PList us"
  shows "((\<forall>u\<in>set us. is_dict u) \<longrightarrow> list_users m True = PList (filter active_truthy us))
         \<and> ((\<forall>u\<in>set us. active_typed u) \<longrightarrow>
              list_users m True = PList (filter (\<lambda>u. field u ''active'' \<noteq> Some (PBool False)) us))
         \<and> ((\<exists>u\<in>set us. \<not> is_dict u) \<longrightarrow> list_users m True = PList [])
         \<and> list_users m False = PList us"
proof (intro conjI impI)
  assume "\<forall>u\<in>set us. is_dict u"
  with assms show "list_users m True = PList (filter active_truthy us)"
    by (simp add: list_users_def active_users_dicts)
next
  assume t: "\<forall>u\<in>set us. active_typed u"
  then have "\<forall>u\<in>set us. is_dict u"
    by (simp add: active_typed_def)
  with assms have "list_users m True = PList (filter active_truthy us)"
    by (simp add: list_users_def active_users_dicts)
  also from t have "filter active_truthy us = filter (\<lambda>u. field u ''active'' \<noteq> Some (PBool False)) us"
    by (intro filter_cong refl) (simp add: active_truthy_typed)
  finally show "list_users m True = PList (filter (\<lambda>u. field u ''active'' \<noteq> Some (PBool False)) us)" .
next
  assume "\<exists>u\<in>set us. \<not> is_dict u"
  then obtain e where "active_users us = Inl e"
    using active_users_non_dict by blast
  with assms show "list_users m True = PList []"
    by (simp add: list_users_def)
next
  from assms show "list_users m False = PList us"
    by (simp add: list_users_def)
qed

theorem list_users_filters_falsy_witness:
  "list_users \<lparr>filename = ''users.json'', users = PList [ann_inactive, bo, cy]\<rparr> True = PList [bo, cy]
   \<and> list_users \<lparr>filename = ''users.json'', users = PList [ann_inactive, bo, cy]\<rparr> False
       = PList [ann_inactive, bo, cy]
   \<and> list_users \<lparr>filename = ''users.json'', users = PList [PInt 5, ann]\<rparr> True = PList []"
proof -
  have t: "\<forall>u\<in>set [ann_inactive, bo, cy]. active_typed u"
    by (simp add: active_typed_def ann_inactive_def bo_def cy_def)
  have u: "users \<lparr>filename = ''users.json'', users = PList [ann_inactive, bo, cy]\<rparr>
            = PList [ann_inactive, bo, cy]"
    by simp
  have f: "filter (\<lambda>u. field u ''active'' \<noteq> Some (PBool False)) [ann_inactive, bo, cy] = [bo, cy]"
    by (simp add: ann_inactive_def bo_def cy_def)
  have u5: "users \<lparr>filename = ''users.json'', users = PList [PInt 5, ann]\<rparr> = PList [PInt 5, ann]"
    by simp
  have n5: "\<exists>u\<in>set [PInt 5, ann]. \<not> is_dict u"
    by simp
  from list_users_filters_falsy [OF u] t
  have "list_users \<lparr>filename = ''users.json'', users = PList [ann_inactive, bo, cy]\<rparr> True = PList [bo, cy]"
    and "list_users \<lparr>filename = ''users.json'', users = PList [ann_inactive, bo, cy]\<rparr> False
           = PList [ann_inactive, bo, cy]"
    unfolding f by blast+
  moreover from list_users_filters_falsy [OF u5] n5
  have "list_users \<lparr>filename = ''users.json'', users = PList [PInt 5, ann]\<rparr> True = PList []"
    by blast
  ultimately show ?thesis
    by (intro conjI)
qed

section \<open>Runs of the interface\<close>

lemma py_append_Inr: "py_append v x = Inr v' \<Longrightarrow> \<exists>us. v = PList us \<and> v' = PList (us @ [x])"
  by (cases v) auto

lemma py_setitem_at_Inr:
  "py_setitem_at v i ''active'' (PBool False) = Inr v' \<Longrightarrow>
   \<exists>us. v = PList us \<and> i < length us \<and> is_dict (us ! i) \<and> v' = PList (us[i := deactivated (us ! i)])"
  by (cases v) (auto split: if_splits pyval.splits)

lemma add_user_users:
  "users (fst (snd (add_user J w m name email))) = users m
   \<or> (\<exists>us n. users m = PList us \<and> new_id us = Inr n
        \<and> users (fst (snd (add_user J w m name email)))
            = PList (us @ [to_dict \<lparr>id_of = n, name_of = name, email_of = email, active_of = True\<rparr>]))"
  by (auto simp: add_user_def Let_def split_beta split: sum.splits bool.splits dest!: py_append_Inr)

lemma delete_user_users:
  "users (fst (snd (delete_user J w m user_id))) = users m
   \<or> (\<exists>us i. users m = PList us \<and> i < length us \<and> is_dict (us ! i)
        \<and> users (fst (snd (delete_user J w m user_id))) = PList (us[i := deactivated (us ! i)]))"
  by (auto simp: delete_user_def Let_def split_beta split: sum.splits option.splits
      dest!: py_setitem_at_Inr)

lemma exec_users:
  "users (exec J w m c) = users m
   \<or> (\<exists>us n name email. users m = PList us \<and> new_id us = Inr n \<and> c = Add name email
        \<and> users (exec J w m c)
            = PList (us @ [to_dict \<lparr>id_of = n, name_of = name, email_of = email, active_of = True\<rparr>]))
   \<or> (\<exists>us i. users m = PList us \<and> i < length us \<and> is_dict (us ! i)
        \<and> users (exec J w m c) = PList (us[i := deactivated (us ! i)]))"
proof (cases c)
  case (Add name email)
  with add_user_users [of J w m name email] show ?thesis by auto
next
  case (Delete user_id)
  with delete_user_users [of J w m user_id] show ?thesis by auto
qed simp_all

lemma inactive_at_exec:
  assumes "inactive_at (users m) j"
  shows "inactive_at (users (exec J w m c)) j"
proof -
  from exec_users [of J w m c] consider
      "users (exec J w m c) = users m"
    | us x where "users m = PList us" and "users (exec J w m c) = PList (us @ [x])"
    | us i where "users m = PList us" and "i < length us" and "is_dict (us ! i)"
        and "users (exec J w m c) = PList (us[i := deactivated (us ! i)])"
    by blast
  then show ?thesis
  proof cases
    case 1
    with assms show ?thesis by simp
  next
    case 2
    with assms show ?thesis by (simp add: nth_append)
  next
    case 3
    with assms show ?thesis
      by (cases "j = i") (simp_all add: field_deactivated)
  qed
qed

text \<open>
  C8. A record of the store whose active field is false stays where it is with its active
  field false, whatever operations of the interface follow and whatever happens to the
  files in between: the interface has no way back to active.
\<close>

theorem inactive_stays_inactive:
  "inactive_at (users m) j \<Longrightarrow> inactive_at (users (run J m steps)) j"
proof (induction steps arbitrary: m)
  case Nil
  then show ?case by simp
next
  case (Cons step steps)
  from Cons.prems have "inactive_at (users (exec J (fst step) m (snd step))) j"
    by (rule inactive_at_exec)
  then show ?case
    by (simp add: Cons.IH)
qed

theorem inactive_stays_inactive_witness:
  "inactive_at (users \<lparr>filename = ''users.json'', users = PList [bo, ann_inactive]\<rparr>) 1
   \<and> inactive_at
        (users (run example_json \<lparr>filename = ''users.json'', users = PList [bo, ann_inactive]\<rparr>
                  [(fresh_world, Add ''Ann'' ''ann@x.com''), (fresh_world, Add ''Cy'' ''cy@x.com''),
                   (fresh_world, Delete 1), (readonly_world, Delete 2),
                   (fresh_world, Get 1), (fresh_world, ListUsers False)])) 1"
proof -
  have h: "inactive_at (users \<lparr>filename = ''users.json'', users = PList [bo, ann_inactive]\<rparr>) 1"
    by (simp add: ann_inactive_def)
  show ?thesis
    by (intro conjI h inactive_stays_inactive [OF h])
qed

lemma record_id_deactivated: "is_dict u \<Longrightarrow> record_id (deactivated u) = record_id u"
  by (cases u) (simp_all add: record_id_def update_conv')

lemma record_id_to_dict: "record_id (to_dict u) = Some (id_of u)"
  by (simp add: record_id_def to_dict_def)

lemma next_id_fresh:
  assumes "\<forall>u\<in>set us. record_id u \<noteq> None" and "u \<in> set us"
  shows "record_id u \<noteq> Some (next_id us)"
proof -
  let ?ids = "set (map (\<lambda>u. the (record_id u)) us)"
  from assms(2) have "the (record_id u) \<in> ?ids"
    by simp
  then have "the (record_id u) \<le> Max ?ids"
    by (intro Max_ge) simp_all
  moreover from assms(2) have "next_id us = Max ?ids + 1"
    by (auto simp: next_id_def)
  ultimately have "the (record_id u) \<noteq> next_id us"
    by simp
  then show ?thesis
    by auto
qed

lemma exec_keeps_ids:
  assumes "users m = PList us"
    and "\<forall>u\<in>set us. record_id u \<noteq> None"
    and "distinct (map record_id us)"
  shows "\<exists>us'. users (exec J w m c) = PList us'
           \<and> (\<forall>u\<in>set us'. record_id u \<noteq> None) \<and> distinct (map record_id us')"
proof -
  from exec_users [of J w m c] assms(1) consider
      "users (exec J w m c) = PList us"
    | n name email where "new_id us = Inr n"
        and "users (exec J w m c)
               = PList (us @ [to_dict \<lparr>id_of = n, name_of = name, email_of = email, active_of = True\<rparr>])"
    | i where "i < length us" and "is_dict (us ! i)"
        and "users (exec J w m c) = PList (us[i := deactivated (us ! i)])"
    by auto
  then show ?thesis
  proof cases
    case 1
    with assms show ?thesis by simp
  next
    case 2
    from 2(1) new_id_typed [OF assms(2)] have n: "n = next_id us"
      by simp
    have "Some (next_id us) \<notin> set (map record_id us)"
    proof
      assume "Some (next_id us) \<in> set (map record_id us)"
      then obtain u where "u \<in> set us" and "record_id u = Some (next_id us)"
        by auto
      with next_id_fresh [OF assms(2)] show False
        by blast
    qed
    with 2(2) n assms show ?thesis
      by (simp add: record_id_to_dict)
  next
    case 3
    have "map record_id (us[i := deactivated (us ! i)]) = map record_id us"
      using 3(1,2) by (simp add: map_update record_id_deactivated list_update_same_conv)
    moreover have "\<forall>u\<in>set (us[i := deactivated (us ! i)]). record_id u \<noteq> None"
    proof
      fix u assume "u \<in> set (us[i := deactivated (us ! i)])"
      then have "u = deactivated (us ! i) \<or> u \<in> set us"
        using set_update_subset_insert [of us i "deactivated (us ! i)"] by auto
      with assms(2) 3(1,2) show "record_id u \<noteq> None"
        by (auto simp: record_id_deactivated)
    qed
    ultimately show ?thesis
      using 3(3) assms(3) by simp
  qed
qed

lemma run_keeps_ids:
  assumes "users m = PList us"
    and "\<forall>u\<in>set us. record_id u \<noteq> None"
    and "distinct (map record_id us)"
  shows "\<exists>us'. users (run J m steps) = PList us'
           \<and> (\<forall>u\<in>set us'. record_id u \<noteq> None) \<and> distinct (map record_id us')"
  using assms
proof (induction steps arbitrary: m us)
  case Nil
  then show ?case by simp
next
  case (Cons step steps)
  from exec_keeps_ids [OF Cons.prems, of J "fst step" "snd step"]
  obtain us' where "users (exec J (fst step) m (snd step)) = PList us'"
    and "\<forall>u\<in>set us'. record_id u \<noteq> None" and "distinct (map record_id us')"
    by blast
  from Cons.IH [OF this] show ?case
    by simp
qed

text \<open>
  C7. After any sequence of operations on a manager that started with an empty store, the
  store is a list of records with numeric, pairwise distinct ids; and an \<^verbatim>\<open>add_user\<close> in
  that state either leaves the store as it is or appends a record whose id is one more than
  the largest id of the store (1 when the store is empty).
\<close>

theorem ids_stay_unique:
  assumes "users m0 = PList []"
  shows "\<exists>us. users (run J m0 steps) = PList us
           \<and> distinct (map record_id us)
           \<and> (\<forall>u\<in>set us. record_id u \<noteq> None)
           \<and> (\<forall>w name email.
                 users (exec J w (run J m0 steps) (Add name email)) = PList us
                 \<or> users (exec J w (run J m0 steps) (Add name email))
                     = PList (us @ [to_dict \<lparr>id_of = next_id us, name_of = name,
                                             email_of = email, active_of = True\<rparr>]))"
proof -
  from run_keeps_ids [OF assms, of J steps] obtain us
    where us: "users (run J m0 steps) = PList us"
      and ids: "\<forall>u\<in>set us. record_id u \<noteq> None" and d: "distinct (map record_id us)"
    by auto
  have "users (exec J w (run J m0 steps) (Add name email)) = PList us
        \<or> users (exec J w (run J m0 steps) (Add name email))
            = PList (us @ [to_dict \<lparr>id_of = next_id us, name_of = name,
                                    email_of = email, active_of = True\<rparr>])"
    for w name email
    using add_user_users [of J w "run J m0 steps" name email] us new_id_typed [OF ids]
    by auto
  with us ids d show ?thesis
    by blast
qed


theorem ids_stay_unique_witness:
  "users \<lparr>filename = ''users.json'', users = PList []\<rparr> = PList []
   \<and> users (run example_json \<lparr>filename = ''users.json'', users = PList []\<rparr>
               [(fresh_world, Add ''Ann'' ''ann@x.com''), (readonly_world, Add ''Bo'' ''bo@x.com''),
                (fresh_world, Delete 1), (fresh_world, Get 2), (fresh_world, ListUsers True)])
       = PList [ann_inactive, bo]
   \<and> distinct (map record_id [ann_inactive, bo])"
proof -
  let ?m0 = "\<lparr>filename = ''users.json'', users = PList []\<rparr>"
  let ?steps = "[(fresh_world, Add ''Ann'' ''ann@x.com''), (readonly_world, Add ''Bo'' ''bo@x.com''),
                (fresh_world, Delete 1), (fresh_world, Get 2), (fresh_world, ListUsers True)]"
  have h: "users ?m0 = PList []"
    by simp
  have r: "users (run example_json ?m0 ?steps) = PList [ann_inactive, bo]"
    by (simp add: add_user_def new_id_def py_max_default0_plus_1_def save_users_def
        delete_user_def py_eq_int_def to_dict_def fresh_world_def readonly_world_def
        ann_inactive_def bo_def dump_example_json)
  from ids_stay_unique [OF h, of example_json ?steps] obtain us
    where "users (run example_json ?m0 ?steps) = PList us" and "distinct (map record_id us)"
    by blast
  with r have "distinct (map record_id [ann_inactive, bo])"
    by simp
  with h r show ?thesis
    by blast
qed

section \<open>The json module reads back what it writes\<close>

subsection \<open>Numbers\<close>

lemma of_char_digit_char: "d < 10 \<Longrightarrow> (of_char (digit_char d) :: nat) = 48 + d"
  by (simp add: digit_char_def)

lemma is_digit_digit_char: "d < 10 \<Longrightarrow> is_digit (digit_char d)"
  by (simp add: is_digit_def of_char_digit_char)

lemma digits_step: "digits n = (if n < 10 then [digit_char n] else digits (n div 10) @ [digit_char (n mod 10)])"
  by (rule digits.simps)

lemma digits_not_Nil: "digits n \<noteq> []"
  by (subst digits_step) simp

lemma digits_all_digits: "\<forall>c\<in>set (digits n). is_digit c"
proof (induction n rule: digits.induct)
  case (1 n)
  show ?case
  proof (cases "n < 10")
    case True
    then show ?thesis
      by (subst digits_step) (simp add: is_digit_digit_char)
  next
    case False
    with 1 show ?thesis
      by (subst digits_step) (simp add: is_digit_digit_char)
  qed
qed

lemma digits_value_snoc:
  "digits_value (ds @ [c]) = 10 * digits_value ds + ((of_char c :: nat) - 48)"
  by (simp add: digits_value_def)

lemma digits_value_digits: "digits_value (digits n) = n"
proof (induction n rule: digits.induct)
  case (1 n)
  show ?case
  proof (cases "n < 10")
    case True
    then show ?thesis
      by (subst digits_step) (simp add: digits_value_def of_char_digit_char)
  next
    case False
    with 1 have "digits_value (digits (n div 10)) = n div 10"
      by simp
    with False show ?thesis
      by (subst digits_step) (simp add: digits_value_snoc of_char_digit_char)
  qed
qed

lemma hd_digits: "0 < n \<Longrightarrow> hd (digits n) \<noteq> CHR ''0''"
proof (induction n rule: digits.induct)
  case (1 n)
  show ?case
  proof (cases "n < 10")
    case True
    with 1(2) have "(of_char (digit_char n) :: nat) \<noteq> of_char (CHR ''0'')"
      by (simp add: of_char_digit_char)
    then have "digit_char n \<noteq> CHR ''0''"
      by auto
    with True show ?thesis
      by (subst digits_step) simp
  next
    case False
    with 1 have "hd (digits (n div 10)) \<noteq> CHR ''0''"
      by simp
    with False show ?thesis
      by (subst digits_step) (simp add: digits_not_Nil)
  qed
qed

lemma delim_not_digit: "delim rest \<Longrightarrow> takeWhile is_digit rest = [] \<and> dropWhile is_digit rest = rest"
  by (cases rest) (auto simp: delim_def is_digit_def)

lemma delim_not_real: "delim rest \<Longrightarrow> \<not> real_follows rest"
  by (auto simp: delim_def real_follows_def split: list.splits)

lemma scan_nat_digits:
  assumes "delim rest"
  shows "scan_nat (digits n @ rest) = Some (n, rest)"
proof (cases "n = 0")
  case True
  have "(of_char (digit_char 0) :: nat) = of_char (CHR ''0'')"
    by (simp add: of_char_digit_char)
  then have "digit_char 0 = CHR ''0''"
    by (simp only: of_char_eq_iff)
  then have "digits 0 = [CHR ''0'']"
    by (subst digits_step) simp
  with True show ?thesis
    by (simp add: scan_nat_def)
next
  case False
  obtain c ds where cds: "digits n = c # ds"
    using digits_not_Nil [of n] by (cases "digits n") auto
  from False hd_digits [of n] cds have c0: "c \<noteq> CHR ''0''"
    by simp
  from digits_all_digits [of n] cds have cd: "is_digit c" and dd: "\<forall>x\<in>set ds. is_digit x"
    by simp_all
  from digits_all_digits [of n] delim_not_digit [OF assms]
  have tw: "takeWhile is_digit (digits n @ rest) = digits n"
    and dw: "dropWhile is_digit (digits n @ rest) = rest"
    by (simp_all add: takeWhile_append2 dropWhile_append2)
  have "scan_nat (digits n @ rest)
          = Some (digits_value (takeWhile is_digit (digits n @ rest)),
                  dropWhile is_digit (digits n @ rest))"
    using c0 cd by (simp add: scan_nat_def cds)
  then show ?thesis
    by (simp only: tw dw digits_value_digits)
qed

lemma is_digit_not_minus: "is_digit c \<Longrightarrow> c \<noteq> CHR ''-''"
  by (auto simp: is_digit_def)

lemma scan_number_int_repr:
  assumes "delim rest"
  shows "scan_number (int_repr i @ rest) = Some (PInt i, rest)"
proof (cases "i < 0")
  case True
  then show ?thesis
    using scan_nat_digits [OF assms, of "nat (- i)"] delim_not_real [OF assms]
    by (simp add: scan_number_def int_repr_def)
next
  case False
  obtain c ds where cds: "digits (nat i) = c # ds"
    using digits_not_Nil [of "nat i"] by (cases "digits (nat i)") auto
  with digits_all_digits [of "nat i"] have "c \<noteq> CHR ''-''"
    by (simp add: is_digit_not_minus)
  with False cds scan_nat_digits [OF assms, of "nat i"] delim_not_real [OF assms]
  show ?thesis
    by (simp add: scan_number_def int_repr_def)
qed

subsection \<open>Strings\<close>

lemma hex_value_hex_char: "d < 16 \<Longrightarrow> hex_value (hex_char d) = Some d"
  by (auto simp: hex_value_def hex_char_def Let_def)

lemma hex4_00:
  assumes "n < 256"
  shows "hex4 (CHR ''0'') (CHR ''0'') (hex_char (n div 16)) (hex_char (n mod 16)) = Some n"
proof -
  from assms have "n div 16 < 16"
    by simp
  then have "hex_value (hex_char (n div 16)) = Some (n div 16)"
    by (rule hex_value_hex_char)
  moreover have "hex_value (hex_char (n mod 16)) = Some (n mod 16)"
    by (rule hex_value_hex_char) simp
  moreover have "hex_value (CHR ''0'') = Some 0"
    by (simp add: hex_value_def)
  ultimately show ?thesis
    by (simp add: hex4_def)
qed

lemma of_char_less_256: "(of_char c :: nat) < 256"
  by (cases c) (simp add: of_char_def)

lemma scanstring_escape_char:
  "scanstring (escape_char c @ r) =
     (case scanstring r of None \<Rightarrow> None | Some (t, rest) \<Rightarrow> Some (c # t, rest))"
proof -
  let ?n = "of_char c :: nat"
  have n: "?n < 256"
    by (rule of_char_less_256)
  consider (short) "c = CHR 0x22 \<or> c = CHR 0x5C \<or> c = CHR 0x08 \<or> c = CHR 0x0C
                    \<or> c = CHR 0x0A \<or> c = CHR 0x0D \<or> c = CHR 0x09"
    | (raw) "c \<noteq> CHR 0x22" "c \<noteq> CHR 0x5C" "c \<noteq> CHR 0x08" "c \<noteq> CHR 0x0C"
        "c \<noteq> CHR 0x0A" "c \<noteq> CHR 0x0D" "c \<noteq> CHR 0x09" "32 \<le> ?n \<and> ?n \<le> 126"
    | (hex) "c \<noteq> CHR 0x22" "c \<noteq> CHR 0x5C" "c \<noteq> CHR 0x08" "c \<noteq> CHR 0x0C"
        "c \<noteq> CHR 0x0A" "c \<noteq> CHR 0x0D" "c \<noteq> CHR 0x09" "\<not> (32 \<le> ?n \<and> ?n \<le> 126)"
    by blast
  then show ?thesis
  proof cases
    case short
    then show ?thesis
      by (auto simp: escape_char_def unescape_def split: option.splits)
  next
    case raw
    then show ?thesis
      by (simp add: escape_char_def)
  next
    case hex
    then show ?thesis
      using hex4_00 [OF n] n by (simp add: escape_char_def split: option.splits)
  qed
qed

lemma scanstring_escaped:
  "scanstring (concat (map escape_char s) @ CHR 0x22 # rest) = Some (s, rest)"
  by (induction s) (simp_all add: scanstring_escape_char)

lemma str_repr_Cons: "str_repr s = CHR 0x22 # concat (map escape_char s) @ [CHR 0x22]"
  by (simp add: str_repr_def)


subsection \<open>Values\<close>

lemma skip_ws_Cons: "\<not> is_ws c \<Longrightarrow> skip_ws (c # s) = c # s"
  by (simp add: skip_ws_def)

lemma skip_ws_newline_indent: "skip_ws (newline_indent l @ s) = skip_ws s"
proof -
  have "dropWhile is_ws (replicate (2 * l) CHR '' '' @ s) = dropWhile is_ws s"
    by (rule dropWhile_append2) (simp add: is_ws_def)
  then show ?thesis
    by (simp add: skip_ws_def newline_indent_def is_ws_def)
qed

lemma skip_ws_space: "skip_ws (CHR '' '' # s) = skip_ws s"
  by (simp add: skip_ws_def is_ws_def)

lemma delim_newline_indent: "delim (newline_indent l @ s)"
  by (simp add: delim_def newline_indent_def)

lemma delim_comma: "delim (CHR '','' # s)"
  by (simp add: delim_def)

lemma length_newline_indent: "0 < length (newline_indent l)"
  by (simp add: newline_indent_def)

lemma join_Cons: "xs \<noteq> [] \<Longrightarrow> join sep (x # xs) = x @ sep @ join sep xs"
  by (cases xs) simp_all

lemma opens_append: "opens s \<Longrightarrow> opens (s @ t)"
  by (cases s) (simp_all add: opens_def)

lemma opens_skip_ws: "opens s \<Longrightarrow> skip_ws s = s"
  by (cases s) (simp_all add: opens_def skip_ws_def)

lemma opens_length: "opens s \<Longrightarrow> 0 < length s"
  by (cases s) (simp_all add: opens_def)

lemma is_digit_opens: "is_digit c \<Longrightarrow> opens (c # s)"
  by (auto simp: opens_def is_digit_def is_ws_def)

lemma opens_int_repr: "opens (int_repr i)"
proof (cases "i < 0")
  case True
  then show ?thesis
    by (simp add: int_repr_def opens_def is_ws_def)
next
  case False
  obtain c ds where cds: "digits (nat i) = c # ds"
    using digits_not_Nil [of "nat i"] by (cases "digits (nat i)") auto
  with digits_all_digits [of "nat i"] have "is_digit c"
    by simp
  with False cds show ?thesis
    by (simp add: int_repr_def is_digit_opens)
qed

lemma opens_str_repr: "opens (str_repr s @ t)"
  by (simp add: str_repr_def opens_def is_ws_def)

lemma opens_dumps: "opens (dumps l v)"
proof (cases v)
  case (PInt i)
  then show ?thesis
    using opens_int_repr [of i] by simp
next
  case (PStr s)
  then show ?thesis
    using opens_str_repr [of s "[]"] by simp
qed (simp_all add: opens_def is_ws_def)

lemma opens_join:
  assumes "xs \<noteq> []" and "\<forall>x\<in>set xs. opens (f x)"
  shows "opens (join sep (map f xs))"
proof (cases xs)
  case Nil
  with assms show ?thesis by simp
next
  case (Cons x ys)
  with assms have "opens (f x)"
    by simp
  with Cons show ?thesis
    by (cases ys) (simp_all add: opens_append)
qed

lemma parse_value_null: "parse_value (Suc n) (''null'' @ rest) = Some (PNone, rest)"
  by simp

lemma parse_value_bool:
  "parse_value (Suc n) ((if b then ''true'' else ''false'') @ rest) = Some (PBool b, rest)"
  by simp

lemma parse_value_str: "parse_value (Suc n) (str_repr s @ rest) = Some (PStr s, rest)"
  by (simp add: str_repr_def scanstring_escaped)

lemma parse_value_number:
  assumes "c = CHR ''-'' \<or> is_digit c"
  shows "parse_value (Suc n) (c # s) = scan_number (c # s)"
proof -
  from assms have "c \<noteq> CHR 0x22" and "c \<noteq> CHR ''{''" and "c \<noteq> CHR ''[''"
    and "c \<noteq> CHR ''n''" and "c \<noteq> CHR ''t''" and "c \<noteq> CHR ''f''"
    by (auto simp: is_digit_def)
  then show ?thesis
    by (cases s) (auto simp: take_Suc_conv_app_nth)
qed

lemma parse_value_int:
  assumes "delim rest"
  shows "parse_value (Suc n) (int_repr i @ rest) = Some (PInt i, rest)"
proof -
  obtain c s where cs: "int_repr i = c # s" and c: "c = CHR ''-'' \<or> is_digit c"
  proof (cases "i < 0")
    case True
    then show ?thesis
      using that by (simp add: int_repr_def)
  next
    case False
    obtain c ds where cds: "digits (nat i) = c # ds"
      using digits_not_Nil [of "nat i"] by (cases "digits (nat i)") auto
    with digits_all_digits [of "nat i"] have "is_digit c"
      by simp
    with False cds that show ?thesis
      by (simp add: int_repr_def)
  qed
  have "parse_value (Suc n) (int_repr i @ rest) = scan_number (int_repr i @ rest)"
    unfolding cs append_Cons using c by (rule parse_value_number)
  with scan_number_int_repr [OF assms] show ?thesis
    by simp
qed

lemma update_fresh: "k \<notin> fst ` set al \<Longrightarrow> AList.update k v al = al @ [(k, v)]"
  by (induction al) auto

lemma fold_update_distinct:
  "distinct (map fst (acc @ kvs)) \<Longrightarrow>
   fold (\<lambda>kv d. AList.update (fst kv) (snd kv) d) kvs acc = acc @ kvs"
proof (induction kvs arbitrary: acc)
  case Nil
  then show ?case by simp
next
  case (Cons kv kvs)
  then have "fst kv \<notin> fst ` set acc"
    by auto
  then have "AList.update (fst kv) (snd kv) acc = acc @ [kv]"
    by (simp add: update_fresh)
  moreover from Cons.prems have "distinct (map fst ((acc @ [kv]) @ kvs))"
    by simp
  ultimately show ?case
    using Cons.IH [of "acc @ [kv]"] by simp
qed

lemma dict_of_distinct: "distinct (map fst d) \<Longrightarrow> dict_of d = d"
  using fold_update_distinct [of "[]" d] by (simp add: dict_of_def)

lemma parse_items_join:
  assumes "xs \<noteq> []"
    and "\<And>x l n rest. x \<in> set xs \<Longrightarrow> length (dumps l x) \<le> n \<Longrightarrow> delim rest \<Longrightarrow>
           parse_value n (dumps l x @ rest) = Some (x, rest)"
    and "length (join (CHR '','' # newline_indent L) (map (dumps L) xs)) < n"
  shows "parse_items n (join (CHR '','' # newline_indent L) (map (dumps L) xs)
                        @ newline_indent l' @ CHR '']'' # rest) = Some (xs, rest)"
  using assms
proof (induction xs arbitrary: n rule: list_nonempty_induct)
  case (single x)
  from single.prems(2) obtain n' where n: "n = Suc n'" and len: "length (dumps L x) \<le> n'"
    by (cases n) auto
  have "parse_value n' (dumps L x @ newline_indent l' @ CHR '']'' # rest)
          = Some (x, newline_indent l' @ CHR '']'' # rest)"
    using len by (intro single.prems(1)) (simp_all add: delim_newline_indent)
  moreover have "skip_ws (newline_indent l' @ CHR '']'' # rest) = CHR '']'' # rest"
    by (simp add: skip_ws_newline_indent skip_ws_Cons is_ws_def)
  ultimately show ?case
    by (simp add: n)
next
  case (cons x xs)
  let ?sep = "CHR '','' # newline_indent L"
  let ?tail = "join ?sep (map (dumps L) xs) @ newline_indent l' @ CHR '']'' # rest"
  have j: "join ?sep (map (dumps L) (x # xs)) = dumps L x @ ?sep @ join ?sep (map (dumps L) xs)"
    using cons.hyps(1) by (simp add: join_Cons)
  from cons.prems(2) obtain n' where n: "n = Suc n'"
    and len: "length (dumps L x) \<le> n'"
    and len': "length (join ?sep (map (dumps L) xs)) < n'"
    unfolding j by (cases n) auto
  have "parse_value n' (dumps L x @ CHR '','' # newline_indent L @ ?tail)
          = Some (x, CHR '','' # newline_indent L @ ?tail)"
    using len by (intro cons.prems(1)) (simp_all add: delim_comma)
  moreover have "skip_ws (CHR '','' # newline_indent L @ ?tail) = CHR '','' # newline_indent L @ ?tail"
    by (simp add: skip_ws_Cons is_ws_def)
  moreover have "opens (join ?sep (map (dumps L) xs))"
    using cons.hyps(1) by (intro opens_join) (simp_all add: opens_dumps)
  then have "skip_ws (newline_indent L @ ?tail) = ?tail"
    by (simp add: skip_ws_newline_indent opens_skip_ws opens_append)
  moreover have "parse_items n' ?tail = Some (xs, rest)"
    using len' by (intro cons.IH cons.prems(1)) simp_all
  ultimately show ?case
    unfolding n j by simp
qed


lemma parse_members_join:
  assumes "d \<noteq> []"
    and "\<And>kv l n rest. kv \<in> set d \<Longrightarrow> length (dumps l (snd kv)) \<le> n \<Longrightarrow> delim rest \<Longrightarrow>
           parse_value n (dumps l (snd kv) @ rest) = Some (snd kv, rest)"
    and "length (join (CHR '','' # newline_indent L)
                   (map (\<lambda>kv. str_repr (fst kv) @ '': '' @ dumps L (snd kv)) d)) < n"
  shows "parse_members n (join (CHR '','' # newline_indent L)
                            (map (\<lambda>kv. str_repr (fst kv) @ '': '' @ dumps L (snd kv)) d)
                          @ newline_indent l' @ CHR ''}'' # rest) = Some (d, rest)"
  using assms
proof (induction d arbitrary: n rule: list_nonempty_induct)
  case (single kv)
  let ?after = "newline_indent l' @ CHR ''}'' # rest"
  from single.prems(2) obtain n' where n: "n = Suc n'" and len: "length (dumps L (snd kv)) \<le> n'"
    by (cases n) auto
  have "scanstring (concat (map escape_char (fst kv)) @ CHR 0x22 # CHR '':'' # CHR '' '' # dumps L (snd kv) @ ?after)
          = Some (fst kv, CHR '':'' # CHR '' '' # dumps L (snd kv) @ ?after)"
    by (rule scanstring_escaped)
  moreover have "skip_ws (CHR '':'' # CHR '' '' # dumps L (snd kv) @ ?after)
                   = CHR '':'' # CHR '' '' # dumps L (snd kv) @ ?after"
    by (simp add: skip_ws_Cons is_ws_def)
  moreover have "skip_ws (CHR '' '' # dumps L (snd kv) @ ?after) = dumps L (snd kv) @ ?after"
    by (simp add: skip_ws_space opens_skip_ws opens_append opens_dumps)
  moreover have "parse_value n' (dumps L (snd kv) @ ?after) = Some (snd kv, ?after)"
    using len by (intro single.prems(1)) (simp_all add: delim_newline_indent)
  moreover have "skip_ws ?after = CHR ''}'' # rest"
    by (simp add: skip_ws_newline_indent skip_ws_Cons is_ws_def)
  ultimately show ?case
    unfolding n by (simp add: str_repr_def)
next
  case (cons kv d)
  let ?sep = "CHR '','' # newline_indent L"
  let ?mem = "\<lambda>kv. str_repr (fst kv) @ '': '' @ dumps L (snd kv)"
  let ?tail = "join ?sep (map ?mem d) @ newline_indent l' @ CHR ''}'' # rest"
  let ?after = "CHR '','' # newline_indent L @ ?tail"
  have j: "join ?sep (map ?mem (kv # d)) = ?mem kv @ ?sep @ join ?sep (map ?mem d)"
    using cons.hyps(1) by (simp add: join_Cons)
  from cons.prems(2) obtain n' where n: "n = Suc n'"
    and len: "length (dumps L (snd kv)) \<le> n'"
    and len': "length (join ?sep (map ?mem d)) < n'"
    unfolding j by (cases n) auto
  have "scanstring (concat (map escape_char (fst kv)) @ CHR 0x22 # CHR '':'' # CHR '' '' # dumps L (snd kv) @ ?after)
          = Some (fst kv, CHR '':'' # CHR '' '' # dumps L (snd kv) @ ?after)"
    by (rule scanstring_escaped)
  moreover have "skip_ws (CHR '':'' # CHR '' '' # dumps L (snd kv) @ ?after)
                   = CHR '':'' # CHR '' '' # dumps L (snd kv) @ ?after"
    by (simp add: skip_ws_Cons is_ws_def)
  moreover have "skip_ws (CHR '' '' # dumps L (snd kv) @ ?after) = dumps L (snd kv) @ ?after"
    by (simp add: skip_ws_space opens_skip_ws opens_append opens_dumps)
  moreover have "parse_value n' (dumps L (snd kv) @ ?after) = Some (snd kv, ?after)"
    using len by (intro cons.prems(1)) (simp_all add: delim_comma)
  moreover have "skip_ws ?after = ?after"
    by (simp add: skip_ws_Cons is_ws_def)
  moreover have "opens (join ?sep (map ?mem d))"
    using cons.hyps(1) by (intro opens_join) (simp_all add: opens_str_repr)
  then have "skip_ws (newline_indent L @ ?tail) = ?tail"
    by (simp add: skip_ws_newline_indent opens_skip_ws opens_append)
  moreover have "parse_members n' ?tail = Some (d, rest)"
    using len' by (intro cons.IH cons.prems(1)) simp_all
  moreover obtain q t where "?tail = q # t" and "q \<noteq> CHR ''}''"
    using \<open>opens (join ?sep (map ?mem d))\<close>
    by (cases "join ?sep (map ?mem d)") (auto simp: opens_def)
  ultimately show ?case
    unfolding n j by (simp add: str_repr_def)
qed

lemma parse_value_dumps:
  "py_wf v \<Longrightarrow> length (dumps l v) \<le> n \<Longrightarrow> delim rest \<Longrightarrow>
   parse_value n (dumps l v @ rest) = Some (v, rest)"
proof (induction v arbitrary: l n rest)
  case PNone
  then obtain n' where "n = Suc n'"
    by (cases n) auto
  then show ?case
    by simp
next
  case (PBool b)
  then obtain n' where "n = Suc n'"
    by (cases n) (auto split: if_splits)
  then show ?case
    by (cases b) simp_all
next
  case (PInt i)
  from PInt.prems(2) opens_length [OF opens_dumps [of l "PInt i"]] obtain n' where "n = Suc n'"
    by (cases n) auto
  with parse_value_int [OF PInt.prems(3), of n' i] show ?case
    by (simp only: dumps.simps)
next
  case (PStr s)
  from PStr.prems(2) opens_length [OF opens_dumps [of l "PStr s"]] obtain n' where "n = Suc n'"
    by (cases n) auto
  with parse_value_str [of n' s rest] show ?case
    by (simp only: dumps.simps)
next
  case (PList xs)
  show ?case
  proof (cases "xs = []")
    case True
    from PList.prems(2) True obtain n' where "n = Suc n'"
      by (cases n) auto
    with True show ?thesis
      by (simp add: skip_ws_Cons is_ws_def)
  next
    case False
    let ?sep = "CHR '','' # newline_indent (Suc l)"
    let ?J = "join ?sep (map (dumps (Suc l)) xs)"
    let ?tail = "?J @ newline_indent l @ CHR '']'' # rest"
    have d: "dumps l (PList xs) @ rest = CHR ''['' # newline_indent (Suc l) @ ?tail"
      using False by simp
    from PList.prems(2) False length_newline_indent [of l] length_newline_indent [of "Suc l"]
    obtain n' where n: "n = Suc n'" and len: "length ?J < n'"
      by (cases n) auto
    have o: "opens ?J"
      using False by (intro opens_join) (simp_all add: opens_dumps)
    then have sk: "skip_ws (newline_indent (Suc l) @ ?tail) = ?tail"
      by (simp add: skip_ws_newline_indent opens_skip_ws opens_append)
    from o obtain q t where qt: "?tail = q # t" and q: "q \<noteq> CHR '']''"
      by (cases ?J) (auto simp: opens_def)
    have "parse_items n' ?tail = Some (xs, rest)"
    proof (rule parse_items_join [OF False _ len])
      fix x l n rest
      assume "x \<in> set xs" and "length (dumps l x) \<le> n" and "delim rest"
      moreover from \<open>x \<in> set xs\<close> PList.prems(1) have "py_wf x"
        by (simp add: list_all_iff)
      ultimately show "parse_value n (dumps l x @ rest) = Some (x, rest)"
        by (intro PList.IH)
    qed
    with sk qt q show ?thesis
      unfolding d n by simp
  qed
next
  case (PDict d)
  show ?case
  proof (cases "d = []")
    case True
    from PDict.prems(2) True obtain n' where "n = Suc n'"
      by (cases n) auto
    with True show ?thesis
      by (simp add: skip_ws_Cons is_ws_def)
  next
    case False
    let ?sep = "CHR '','' # newline_indent (Suc l)"
    let ?mem = "\<lambda>kv. str_repr (fst kv) @ '': '' @ dumps (Suc l) (snd kv)"
    let ?J = "join ?sep (map ?mem d)"
    let ?tail = "?J @ newline_indent l @ CHR ''}'' # rest"
    have t: "dumps l (PDict d) @ rest = CHR ''{'' # newline_indent (Suc l) @ ?tail"
      using False by simp
    from PDict.prems(2) False length_newline_indent [of l] length_newline_indent [of "Suc l"]
    obtain n' where n: "n = Suc n'" and len: "length ?J < n'"
      by (cases n) auto
    have o: "opens ?J"
      using False by (intro opens_join) (simp_all add: opens_str_repr)
    then have sk: "skip_ws (newline_indent (Suc l) @ ?tail) = ?tail"
      by (simp add: skip_ws_newline_indent opens_skip_ws opens_append)
    from o obtain q t' where qt: "?tail = q # t'" and q: "q \<noteq> CHR ''}''"
      by (cases ?J) (auto simp: opens_def)
    have "parse_members n' ?tail = Some (d, rest)"
    proof (rule parse_members_join [OF False _ len])
      fix kv l n rest
      assume kv: "kv \<in> set d" and "length (dumps l (snd kv)) \<le> n" and "delim rest"
      moreover from kv PDict.prems(1) have "py_wf (snd kv)"
        by (simp add: list_all_iff)
      moreover have "snd kv \<in> Basic_BNFs.snds kv"
        by (cases kv) simp
      ultimately show "parse_value n (dumps l (snd kv) @ rest) = Some (snd kv, rest)"
        by (intro PDict.IH)
    qed
    moreover from PDict.prems(1) have "dict_of d = d"
      by (simp add: dict_of_distinct)
    ultimately show ?thesis
      using sk qt q unfolding t n by simp
  qed
qed

lemma json_loads_json_dumps: "py_wf v \<Longrightarrow> json_loads (json_dumps v) = Inr v"
proof -
  assume wf: "py_wf v"
  have "skip_ws (dumps 0 v) = dumps 0 v"
    by (simp add: opens_skip_ws opens_dumps)
  moreover have "parse_value (Suc (2 * length (dumps 0 v))) (dumps 0 v @ []) = Some (v, [])"
    using wf by (intro parse_value_dumps) (simp_all add: delim_def)
  ultimately show ?thesis
    by (simp add: json_loads_def json_dumps_def skip_ws_def)
qed


lemma json_dumps_ann_bo: "json_dumps (PList [ann, bo]) = ann_bo_text"
  by code_simp

lemma json_loads_odd_text: "json_loads odd_text = Inr odd_store"
  by code_simp

lemma save_users_python_json_True:
  assumes "save_users python_json w m = (True, w')"
  shows "content w' (filename m) = Text (json_dumps (users m)) \<and> (\<exists>n. py_len (users m) = Inr n)"
  using assms
  by (auto simp: save_users_def python_json_def Let_def
      split: write_outcome.splits sum.splits)

section \<open>Saving and loading again\<close>

text \<open>
  C4, as stated, fails: when the file cannot be opened for writing, persisting the store
  of Ann returns false and writes nothing, and a manager constructed from the same path
  starts with the empty list.
\<close>

theorem save_fails_then_init_empty:
  "save_users python_json readonly_world \<lparr>filename = ''users.json'', users = PList [ann]\<rparr>
     = (False, readonly_world)
   \<and> init python_json readonly_world ''users.json''
       = Inr \<lparr>filename = ''users.json'', users = PList []\<rparr>"
  by (simp add: save_users_def init_def load_users_def read_json_def readonly_world_def)

text \<open>
  C4, amended. When \<^verbatim>\<open>_save_users\<close> has succeeded on a store of Python values, a manager
  constructed from the same path on the files the save left is the saved manager itself:
  the same path and the same sequence of users, field for field and in the same order.
\<close>

theorem save_then_init_roundtrip:
  assumes "save_users python_json w m = (True, w')" and "py_wf (users m)"
  shows "init python_json w' (filename m) = Inr m"
proof -
  from save_users_python_json_True [OF assms(1)] obtain n
    where c: "content w' (filename m) = Text (json_dumps (users m))"
      and n: "py_len (users m) = Inr n"
    by blast
  have "load python_json (json_dumps (users m)) = Inr (users m)"
    using assms(2) by (simp add: python_json_def json_loads_json_dumps)
  with c have "load_users python_json w' (filename m) = users m"
    by (rule load_users_parsed)
  with n show ?thesis
    by (simp add: init_def)
qed

theorem save_then_init_roundtrip_witness:
  "save_users python_json fresh_world \<lparr>filename = ''users.json'', users = PList [ann, bo]\<rparr>
     = (True, world_with ann_bo_text)
   \<and> py_wf (PList [ann, bo])
   \<and> init python_json (world_with ann_bo_text) ''users.json''
       = Inr \<lparr>filename = ''users.json'', users = PList [ann, bo]\<rparr>"
proof -
  let ?m = "\<lparr>filename = ''users.json'', users = PList [ann, bo]\<rparr>"
  have s: "save_users python_json fresh_world ?m = (True, world_with ann_bo_text)"
    by (simp add: save_users_def python_json_def json_dumps_ann_bo fresh_world_def
        world_with_def fun_eq_iff)
  have w: "py_wf (users ?m)"
    by (simp add: ann_def bo_def)
  from save_then_init_roundtrip [OF s w] s w show ?thesis
    by simp
qed

end
